theory Spec2Isabelle
  imports Complex_Main "HOL-Library.AList" "HOL-Library.Multiset"
begin

section \<open>The serial protocol layer of lib/device.py\<close>

text \<open>
  The module drives a companion device over a serial line with line-delimited JSON
  messages. Its coroutines run on one cooperative scheduler: a coroutine gives up control
  only at an \<^verbatim>\<open>await\<close>. The embedding makes each coroutine a function of the protocol
  state and of a script: the list of what the transport, the clock and the scheduler do
  at each of the coroutine's steps. The result \<open>Pending\<close> says that the script does not give
  the end of the call: the script has ended while the coroutine still polls, or the end
  depends on a choice of the interpreter that is no part of the state.
\<close>

subsection \<open>Results of a call\<close>

datatype exn =
    CancelledError
  | KeyboardInterrupt
  | SerialException
  | JSONDecodeError
  | TimeoutError
  | RuntimeError
  | KeyError
  | TypeError
  | AttributeError
  | OSError
  | OtherError

datatype 'a result =
    Returned 'a
  | Raised exn
  | Pending

subsection \<open>\<^verbatim>\<open>read_until\<close>\<close>

text \<open>
  One turn of the loop of \<^verbatim>\<open>read_until\<close>: the handle \<^verbatim>\<open>self.__s\<close> is \<^verbatim>\<open>None\<close> at the
  loop test; or \<^verbatim>\<open>self.__s.read(1)\<close> raises; or it returns some bytes, \<^verbatim>\<open>time.time()\<close> then
  reads \<open>now\<close>, and the \<^verbatim>\<open>asyncio.sleep(0.0)\<close> that follows (reached only when the call does
  not return) either resumes or throws the cancellation of the task.
\<close>

datatype sleep = Resumed | CancelledAtSleep

datatype poll =
    Absent
  | ReadRaises
  | Read string real sleep

text \<open>
  The \<^verbatim>\<open>timeout\<close> argument: \<^verbatim>\<open>None\<close> (the default), a number (\<^verbatim>\<open>int\<close> or \<^verbatim>\<open>float\<close>, read as
  a real number of seconds), or a value of any other type, which the \<^verbatim>\<open>isinstance\<close> test
  ignores.
\<close>

datatype timeout_arg = NoTimeout | Seconds real | NotANumber

definition endswith :: "string \<Rightarrow> string \<Rightarrow> bool" where
  "endswith buffer e =
     (length e \<le> length buffer \<and> drop (length buffer - length e) buffer = e)"

fun expired :: "timeout_arg \<Rightarrow> real \<Rightarrow> real \<Rightarrow> bool" where
  "expired (Seconds timeout) before_sec now_sec = (now_sec - before_sec > timeout)"
| "expired _ before_sec now_sec = False"

fun read_until_loop ::
  "string \<Rightarrow> timeout_arg \<Rightarrow> real \<Rightarrow> string \<Rightarrow> poll list \<Rightarrow> string option result" where
  "read_until_loop e timeout before_sec buffer [] = Pending"
| "read_until_loop e timeout before_sec buffer (Absent # ps) = Returned None"
| "read_until_loop e timeout before_sec buffer (ReadRaises # ps) = Raised SerialException"
| "read_until_loop e timeout before_sec buffer (Read data now_sec sl # ps) =
     (let buffer' = buffer @ data in
      if endswith buffer' e \<or> expired timeout before_sec now_sec
      then Returned (Some buffer')
      else (case sl of
              CancelledAtSleep \<Rightarrow> Raised CancelledError
            | Resumed \<Rightarrow> read_until_loop e timeout before_sec buffer' ps))"

definition read_until :: "string \<Rightarrow> timeout_arg \<Rightarrow> real \<Rightarrow> poll list \<Rightarrow> string option result" where
  "read_until e timeout before_sec polls = read_until_loop e timeout before_sec [] polls"

text \<open>What the polls of a script have read, and when.\<close>

fun data_of :: "poll \<Rightarrow> string" where
  "data_of (Read data now_sec sl) = data"
| "data_of _ = []"

fun now_of :: "poll \<Rightarrow> real" where
  "now_of (Read data now_sec sl) = now_sec"
| "now_of _ = 0"

fun is_read :: "poll \<Rightarrow> bool" where
  "is_read (Read data now_sec Resumed) = True"
| "is_read _ = False"

definition accumulated :: "nat \<Rightarrow> poll list \<Rightarrow> string" where
  "accumulated k polls = concat (map data_of (take k polls))"

text \<open>The exit test of the loop at poll \<open>k\<close> of a script (counted from 0).\<close>

definition exits :: "string \<Rightarrow> timeout_arg \<Rightarrow> real \<Rightarrow> poll list \<Rightarrow> nat \<Rightarrow> bool" where
  "exits e timeout before_sec polls k =
     (endswith (accumulated (Suc k) polls) e \<or> expired timeout before_sec (now_of (polls ! k)))"

text \<open>
  The exit test as the interface of \<^verbatim>\<open>read_until\<close> describes it, written without the code's
  subtraction: the buffer ends with the delimiter, or a numeric timeout was given and the
  clock read at the poll lies after the start of the call plus the timeout.
\<close>

fun deadline_passed :: "timeout_arg \<Rightarrow> real \<Rightarrow> real \<Rightarrow> bool" where
  "deadline_passed NoTimeout start now_sec = False"
| "deadline_passed (Seconds timeout) start now_sec = (start + timeout < now_sec)"
| "deadline_passed NotANumber start now_sec = False"

definition exit_due :: "string \<Rightarrow> timeout_arg \<Rightarrow> real \<Rightarrow> poll list \<Rightarrow> nat \<Rightarrow> bool" where
  "exit_due e timeout start polls k =
     (endswith (accumulated (Suc k) polls) e \<or> deadline_passed timeout start (now_of (polls ! k)))"

text \<open>
  A script for the tests of the framer: the bytes of one frame arrive one at a time, with
  polls that find nothing in between, and the first byte of the next frame follows. In the
  second script the delimiter \<^verbatim>\<open>"ab"\<close> never completes; the call starts at second 10, and the
  clock reads 11, 12, 12.5 and 13 at the four polls.
\<close>

definition slow_polls :: "poll list" where
  "slow_polls = [Read ''a'' 11 Resumed, Read ''x'' 12 Resumed, Read ''a'' (25 / 2) Resumed,
                 Read ''b'' 13 Resumed]"

definition frame_polls :: "poll list" where
  \<open>frame_polls = map (\<lambda>(c, n). Read c n Resumed)
     [(''{'', 1), (''"'', 2), (''e'', 3), ([], 4), (''v'', 5), (''e'', 6), (''n'', 7), (''t'', 8),
      (''"'', 9), ('':'', 10), (''"'', 11), (''x'', 12), (''"'', 13), (''}'', 14), ([], 15),
      ([CHR 0x0A], 16), (''{'', 17)]\<close>

subsection \<open>Messages, listeners and the protocol state\<close>

text \<open>
  A decoded message is a JSON value; a dictionary keeps its items in insertion order, as
  Python's \<^verbatim>\<open>dict\<close> does (\<^const>\<open>AList.update\<close> overwrites in place or appends, \<^const>\<open>map_of\<close>
  looks a key up).
\<close>

datatype json =
    JNull
  | JBool bool
  | JInt int
  | JFloat real
  | JStr string
  | JArr "json list"
  | JObj "(string \<times> json) list"

type_synonym lid = nat
type_synonym addr = nat

text \<open>
  A listener is any object with a \<^verbatim>\<open>callback\<close> and a \<^verbatim>\<open>cancel\<close> method. A call of either
  returns a plain value, returns an awaitable (which completes or fails once awaited), or
  raises. A \<^verbatim>\<open>callback\<close> runs synchronously inside the dispatch and may itself call
  \<^verbatim>\<open>add_listener\<close> and \<^verbatim>\<open>remove_listener\<close>; the calls it makes are its first component.
  \<^verbatim>\<open>cancel\<close> methods are taken not to touch the registry synchronously (the two classes of
  the module are coroutines, which run nothing when called).
\<close>

datatype reg_op = Add string lid | Remove string lid

datatype cb_result =
    ReturnsNone
  | ReturnsAwaitable "exn option"
  | RaisesSync exn

datatype listener =
    ResultEventListener
  | ResultQueueListener
  | Custom "json \<Rightarrow> reg_op list \<times> cb_result" cb_result

text \<open>
  What a run leaves behind, for the statements only: which callbacks were called with which
  message, which awaitables were awaited to their end, which registry calls were made, what
  was written and whether the transport was closed.
\<close>

datatype action =
    Called lid json
  | Awaited lid "exn option"
  | CancelCalled lid
  | CancelAwaited lid "exn option"
  | AddCalled string lid
  | RemoveCalled string lid
  | Written string
  | TransportClosed

record transport =
  port :: string
  is_open :: bool
  closed :: bool

datatype task = ListenTask

text \<open>
  The fields of \<^verbatim>\<open>SerialProtocol\<close>: \<open>s\<close> is \<^verbatim>\<open>self.__s\<close>, \<open>v\<close> is \<^verbatim>\<open>self.__v\<close>, \<open>l\<close> is
  \<^verbatim>\<open>self.__l\<close> (a dictionary from event names to sets of listeners; a set is the list of its
  members in the order in which the interpreter iterates over it, which Python leaves
  open: the statements below hold for every order), \<open>lt\<close> is \<^verbatim>\<open>self.__lt\<close>. Beside them:
  the listener objects by identity, the value a \<^verbatim>\<open>ResultEventListener\<close> holds while its
  event is set, the queue of a \<^verbatim>\<open>ResultQueueListener\<close>, the dictionaries passed as payloads
  by address, and the trace. The awaitables that callbacks return are collected in a set
  and handed to \<^verbatim>\<open>asyncio.gather\<close> in the order of that set, which follows the hashes of the
  awaitable objects, and they end in an order that their bodies and the scheduler decide:
  \<open>task_order\<close> is that order, the awaitable of the listener with the smaller number
  ending first. It is a parameter of every statement, like the order of the sets.
\<close>

record proto =
  s :: "transport option"
  v :: json
  l :: "(string \<times> lid list) list"
  lt :: "task option"
  objs :: "lid \<Rightarrow> listener"
  slot :: "lid \<Rightarrow> json option"
  queue :: "lid \<Rightarrow> json list"
  heap :: "addr \<Rightarrow> (string \<times> json) list"
  task_order :: "lid \<Rightarrow> nat"
  trace :: "action list"

definition log :: "action \<Rightarrow> proto \<Rightarrow> proto" where
  "log a st = st\<lparr>trace := trace st @ [a]\<rparr>"

subsection \<open>The listener registry\<close>

definition set_add :: "lid list \<Rightarrow> lid \<Rightarrow> lid list" where
  "set_add xs x = (if x \<in> set xs then xs else xs @ [x])"

definition set_discard :: "lid list \<Rightarrow> lid \<Rightarrow> lid list" where
  "set_discard xs x = removeAll x xs"

definition add_listener :: "proto \<Rightarrow> string \<Rightarrow> lid \<Rightarrow> proto" where
  "add_listener st event listener =
     (let l1 = (if map_of (l st) event = None then AList.update event [] (l st) else l st)
      in case map_of l1 event of
           None \<Rightarrow> log (AddCalled event listener) (st\<lparr>l := l1\<rparr>)
         | Some xs \<Rightarrow>
             log (AddCalled event listener)
               (st\<lparr>l := AList.update event (set_add xs listener) l1\<rparr>))"

definition remove_listener :: "proto \<Rightarrow> string \<Rightarrow> lid \<Rightarrow> proto" where
  "remove_listener st event listener =
     (case map_of (l st) event of
        None \<Rightarrow> log (RemoveCalled event listener) st
      | Some xs \<Rightarrow>
          log (RemoveCalled event listener)
            (st\<lparr>l := AList.update event (set_discard xs listener) (l st)\<rparr>))"

fun apply_op :: "proto \<Rightarrow> reg_op \<Rightarrow> proto" where
  "apply_op st (Add event listener) = add_listener st event listener"
| "apply_op st (Remove event listener) = remove_listener st event listener"

definition apply_ops :: "proto \<Rightarrow> reg_op list \<Rightarrow> proto" where
  "apply_ops st ops = foldl apply_op st ops"

subsection \<open>\<^verbatim>\<open>trigger_listener\<close>\<close>

text \<open>
  The registry calls that the callback of a listener object makes when it is called with
  a message, and one call \<^verbatim>\<open>listener.callback(data)\<close>.
\<close>

fun sync_ops :: "listener \<Rightarrow> json \<Rightarrow> reg_op list" where
  "sync_ops (Custom cb cn) data = fst (cb data)"
| "sync_ops _ data = []"

definition call_callback :: "proto \<Rightarrow> lid \<Rightarrow> json \<Rightarrow> proto \<times> cb_result" where
  "call_callback st listener data =
     (case objs st listener of
        ResultEventListener \<Rightarrow>
          (log (Called listener data) (st\<lparr>slot := (slot st)(listener := Some data)\<rparr>),
           ReturnsNone)
      | ResultQueueListener \<Rightarrow>
          (log (Called listener data)
             (st\<lparr>queue := (queue st)(listener := queue st listener @ [data])\<rparr>),
           ReturnsNone)
      | Custom cb cn \<Rightarrow>
          (apply_ops (log (Called listener data) st) (fst (cb data)), snd (cb data)))"

text \<open>
  The loop \<^verbatim>\<open>for listener in listeners\<close> runs over the set object stored in the registry,
  not over a copy. The set iterator of the interpreter holds the size of the set at its
  creation (\<open>used\<close>) and a position in the table of the set; every step, the last one
  included, compares the size and raises \<^verbatim>\<open>RuntimeError\<close> when it has changed, and nothing
  else is compared. So a callback that writes to the set and leaves its size as it was
  (it removes one listener and adds another, or adds and removes) goes unnoticed; which
  members the interpreter visits after that depends on the slots its hash table gives to
  the members, and on whether the table was rebuilt, none of which is part of the state:
  the result is \<open>Pending\<close> then. A registry call that adds a member already in the set, or
  discards one that is not in it, writes nothing. No operation of the module deletes a key
  of the registry, so the set of the event is always found and the first branch is never
  taken. The set \<^verbatim>\<open>tasks\<close> is the list of its members; its order has no meaning.
\<close>

fun writes_set :: "proto \<Rightarrow> string \<Rightarrow> reg_op list \<Rightarrow> bool" where
  "writes_set st event [] = False"
| "writes_set st event (op # ops) =
     (map_of (l (apply_op st op)) event \<noteq> map_of (l st) event
      \<or> writes_set (apply_op st op) event ops)"

definition unnoticed_change :: "proto \<Rightarrow> proto \<Rightarrow> string \<Rightarrow> lid \<Rightarrow> json \<Rightarrow> bool" where
  "unnoticed_change st st1 event listener data =
     (writes_set st event (sync_ops (objs st listener) data)
      \<and> map_option length (map_of (l st1) event) = map_option length (map_of (l st) event))"

function for_listeners ::
  "string \<Rightarrow> json \<Rightarrow> nat \<Rightarrow> nat \<Rightarrow> proto \<Rightarrow> (lid \<times> exn option) list
     \<Rightarrow> proto \<times> (lid \<times> exn option) list result" where
  "for_listeners event data used pos st tasks =
     (case map_of (l st) event of
        None \<Rightarrow> (st, Pending)
      | Some xs \<Rightarrow>
          if length xs \<noteq> used then (st, Raised RuntimeError)
          else if used \<le> pos then (st, Returned tasks)
          else (case call_callback st (xs ! pos) data of
                  (st1, RaisesSync e) \<Rightarrow> (st1, Raised e)
                | (st1, ReturnsNone) \<Rightarrow>
                    if unnoticed_change st st1 event (xs ! pos) data then (st1, Pending)
                    else for_listeners event data used (Suc pos) st1 tasks
                | (st1, ReturnsAwaitable a) \<Rightarrow>
                    if unnoticed_change st st1 event (xs ! pos) data then (st1, Pending)
                    else for_listeners event data used (Suc pos) st1 (tasks @ [(xs ! pos, a)])))"
  by pat_completeness auto
termination
  by (relation "measure (\<lambda>(event, data, used, pos, st, tasks). used - pos)") auto

declare for_listeners.simps [simp del]

text \<open>
  \<^verbatim>\<open>await asyncio.gather(*tasks, return_exceptions=True)\<close>. With no awaitable the future
  returned is already done and the await does not suspend. Otherwise every awaitable runs
  to its end, a failure becomes a result, and while the dispatch is suspended other
  coroutines run: \<open>Gathered ops\<close> carries the registry calls they make. \<open>GatherCancelled\<close>
  is the cancellation of the dispatching task while it waits. The awaitables end in the
  order \<open>task_order\<close> of the state, not in the order in which the loop has met them.
\<close>

datatype gather_env = Gathered "reg_op list" | GatherCancelled "reg_op list"

fun gather :: "(lid \<Rightarrow> exn option \<Rightarrow> action) \<Rightarrow> proto \<Rightarrow> (lid \<times> exn option) list \<Rightarrow> gather_env
     \<Rightarrow> proto \<times> unit result" where
  "gather mk st [] g = (st, Returned ())"
| "gather mk st (t # ts) (Gathered ops) =
     (apply_ops
        (st\<lparr>trace := trace st @ map (\<lambda>(x, a). mk x a)
                                  (sort_key (\<lambda>(x, a). task_order st x) (t # ts))\<rparr>) ops,
      Returned ())"
| "gather mk st (t # ts) (GatherCancelled ops) = (apply_ops st ops, Raised CancelledError)"

definition trigger_listener :: "proto \<Rightarrow> string \<Rightarrow> json \<Rightarrow> gather_env \<Rightarrow> proto \<times> unit result" where
  "trigger_listener st event data g =
     (case map_of (l st) event of
        None \<Rightarrow> gather Awaited st [] g
      | Some listeners \<Rightarrow>
          (case for_listeners event data (length listeners) 0 st [] of
             (st1, Returned tasks) \<Rightarrow> gather Awaited st1 tasks g
           | (st1, Raised e) \<Rightarrow> (st1, Raised e)
           | (st1, Pending) \<Rightarrow> (st1, Pending)))"

text \<open>
  For the statements: the callbacks a trace has seen called, in the order of the calls, and
  the awaitables it has seen awaited to their end; what the callback of a listener object
  does when called with a message; the event a registry call names.
\<close>

fun called :: "action \<Rightarrow> (lid \<times> json) list" where
  "called (Called x d) = [(x, d)]"
| "called _ = []"

fun awaited :: "action \<Rightarrow> (lid \<times> exn option) list" where
  "awaited (Awaited x a) = [(x, a)]"
| "awaited _ = []"

definition calls :: "proto \<Rightarrow> (lid \<times> json) list" where
  "calls st = concat (map called (trace st))"

definition awaits :: "proto \<Rightarrow> (lid \<times> exn option) list" where
  "awaits st = concat (map awaited (trace st))"

fun sync_result :: "listener \<Rightarrow> json \<Rightarrow> cb_result" where
  "sync_result (Custom cb cn) data = snd (cb data)"
| "sync_result _ data = ReturnsNone"

fun op_event :: "reg_op \<Rightarrow> string" where
  "op_event (Add event x) = event"
| "op_event (Remove event x) = event"

fun raises :: "cb_result \<Rightarrow> bool" where
  "raises (RaisesSync e) = True"
| "raises _ = False"

fun awaitable_of :: "lid \<times> cb_result \<Rightarrow> (lid \<times> exn option) list" where
  "awaitable_of (x, ReturnsAwaitable a) = [(x, a)]"
| "awaitable_of _ = []"

text \<open>
  A callback is quiet for an event when it does not raise synchronously and makes no
  synchronous registry call that names the event.
\<close>

definition quiet :: "listener \<Rightarrow> string \<Rightarrow> json \<Rightarrow> bool" where
  "quiet obj event data =
     (\<not> raises (sync_result obj data) \<and> list_all (\<lambda>op. op_event op \<noteq> event) (sync_ops obj data))"

subsection \<open>Concrete states for the tests\<close>

text \<open>The object \<^verbatim>\<open>__init__\<close> builds; no listener object exists yet.\<close>

definition new_protocol :: proto where
  "new_protocol =
     \<lparr>s = None, v = JInt 0, l = [], lt = None, objs = (\<lambda>x. ResultEventListener),
      slot = (\<lambda>x. None), queue = (\<lambda>x. []), heap = (\<lambda>a. []), task_order = (\<lambda>x. x),
      trace = []\<rparr>"

definition closed_msg :: json where
  "closed_msg = JObj [(''event'', JStr ''closed'')]"

text \<open>
  Listener 1 is registered for \<^verbatim>\<open>"e"\<close> with listener 2, and its callback removes
  listener 2 from the same event.
\<close>

definition remover_state :: proto where
  "remover_state =
     new_protocol\<lparr>l := [(''e'', [1, 2])],
       objs := (\<lambda>x. ResultEventListener)
                 (1 := Custom (\<lambda>d. ([Remove ''e'' 2], ReturnsNone)) ReturnsNone)\<rparr>"

text \<open>
  The same two listeners, the callback of the first one removing listener 2 and
  registering listener 3 in its place, so that the set keeps its size.
\<close>

definition swapper_state :: proto where
  "swapper_state =
     new_protocol\<lparr>l := [(''e'', [1, 2])],
       objs := (\<lambda>x. ResultEventListener)
                 (1 := Custom (\<lambda>d. ([Remove ''e'' 2, Add ''e'' 3], ReturnsNone)) ReturnsNone)\<rparr>"

text \<open>The same two listeners, the callback of the first one raising.\<close>

definition raiser_state :: proto where
  "raiser_state =
     new_protocol\<lparr>l := [(''e'', [1, 2])],
       objs := (\<lambda>x. ResultEventListener)
                 (1 := Custom (\<lambda>d. ([], RaisesSync OtherError)) ReturnsNone)\<rparr>"

text \<open>
  Three listeners for \<^verbatim>\<open>"e"\<close>: the callback of the first returns an awaitable that fails,
  the callback of the second one registers listener 4 for another event and returns an
  awaitable that completes, the third is a \<^verbatim>\<open>ResultEventListener\<close>.
\<close>

definition fanout_state :: proto where
  "fanout_state =
     new_protocol\<lparr>l := [(''e'', [1, 2, 3])],
       objs := (\<lambda>x. ResultEventListener)
                 (1 := Custom (\<lambda>d. ([], ReturnsAwaitable (Some OtherError))) ReturnsNone,
                  2 := Custom (\<lambda>d. ([Add ''f'' 4], ReturnsAwaitable None)) ReturnsNone)\<rparr>"

subsection \<open>\<^verbatim>\<open>write\<close>, \<^verbatim>\<open>request\<close> and \<^verbatim>\<open>request_with_result\<close>\<close>

text \<open>
  One turn of the loop of \<^verbatim>\<open>write\<close>: \<^verbatim>\<open>self.__s.write\<close> takes \<open>n\<close> bytes of the chunk of at
  most 128 bytes offered to it, and the sleep that follows resumes or is cancelled; or the
  call raises. Text is ASCII here (\<^verbatim>\<open>json.dumps\<close> escapes everything else), so encoding it
  to UTF-8 changes nothing. The method \<^verbatim>\<open>write\<close> is \<open>write_data\<close> here. Its lock, which
  makes a second writer wait for the first, is left out: in every script one coroutine
  writes at a time.
\<close>

datatype wstep = Wrote nat sleep | WriteRaises exn

fun write_loop :: "proto \<Rightarrow> string \<Rightarrow> nat \<Rightarrow> wstep list \<Rightarrow> proto \<times> unit result" where
  "write_loop st data pointer [] =
     (if pointer < length data then (st, Pending) else (st, Returned ()))"
| "write_loop st data pointer (WriteRaises e # ws) =
     (if pointer < length data then (st, Raised e) else (st, Returned ()))"
| "write_loop st data pointer (Wrote n sl # ws) =
     (if pointer < length data
      then (let st1 = log (Written (take n (take 128 (drop pointer data)))) st
            in case sl of
                 CancelledAtSleep \<Rightarrow> (st1, Raised CancelledError)
               | Resumed \<Rightarrow> write_loop st1 data (pointer + n) ws)
      else (st, Returned ()))"

definition write_data :: "proto \<Rightarrow> string \<Rightarrow> wstep list \<Rightarrow> proto \<times> unit result" where
  "write_data st data steps =
     (case s st of
        None \<Rightarrow> (if 0 < length data then (st, Raised AttributeError) else (st, Returned ()))
      | Some tr \<Rightarrow> write_loop st data 0 steps)"

text \<open>
  What other coroutines do to the protocol object while a call is suspended: registry
  calls, and dispatches of received messages by the read loop.
\<close>

datatype other = Reg reg_op | Deliver string json gather_env

fun run_other :: "proto \<Rightarrow> other \<Rightarrow> proto" where
  "run_other st (Reg op) = apply_op st op"
| "run_other st (Deliver event data g) = fst (trigger_listener st event data g)"

definition run_others :: "proto \<Rightarrow> other list \<Rightarrow> proto" where
  "run_others st os = foldl run_other st os"

text \<open>
  The default value of a parameter is one object, made when the \<^verbatim>\<open>def\<close> is executed:
  the dictionary \<^verbatim>\<open>{}\<close> of \<^verbatim>\<open>request\<close> and the one of \<^verbatim>\<open>request_with_result\<close> live at two
  fixed addresses. A caller passes the address of its dictionary, or nothing.
  \<^verbatim>\<open>json.dumps\<close> is a parameter: it gives the text of a dictionary or raises.
\<close>

definition request_default :: addr where
  "request_default = 0"

definition request_with_result_default :: addr where
  "request_with_result_default = 1"

definition crlf :: string where
  "crlf = [CHR 0x0D, CHR 0x0A]"

definition request ::
  "((string \<times> json) list \<Rightarrow> exn + string) \<Rightarrow> proto \<Rightarrow> string \<Rightarrow> addr option
     \<Rightarrow> wstep list \<Rightarrow> wstep list \<Rightarrow> other list \<Rightarrow> proto \<times> unit result" where
  "request dumps st event data_arg w1 w2 others =
     (let data = (case data_arg of None \<Rightarrow> request_default | Some a \<Rightarrow> a);
          st1 = st\<lparr>heap := (heap st)(data := AList.update ''event'' (JStr event) (heap st data))\<rparr>
      in case dumps (heap st1 data) of
           Inl e \<Rightarrow> (st1, Raised e)
         | Inr text \<Rightarrow>
             (case write_data (run_others st1 others) text w1 of
                (st2, Returned u) \<Rightarrow> write_data st2 crlf w2
              | (st2, Raised e) \<Rightarrow> (st2, Raised e)
              | (st2, Pending) \<Rightarrow> (st2, Pending)))"

text \<open>
  \<^verbatim>\<open>ResultEventListener.wait\<close> runs \<^verbatim>\<open>asyncio.wait_for(self.__ev.wait(), timeout)\<close> in a task
  and awaits it. \<^verbatim>\<open>wait_for\<close> compares a timeout other than \<^verbatim>\<open>None\<close> with 0 before it looks
  at the event: the comparison raises \<^verbatim>\<open>TypeError\<close> for a value that has no order against
  numbers (\<open>NotANumber\<close> stands for such a value here), and a number that is not positive
  makes \<^verbatim>\<open>wait_for\<close> cancel the wait it has just created and raise \<^verbatim>\<open>TimeoutError\<close>, also
  when the reply is stored already. \<open>refusal\<close> is that outcome. Otherwise the call returns
  the stored value once the event of the listener is set, and clears the event; with a
  numeric timeout it may raise \<^verbatim>\<open>TimeoutError\<close> instead; the waiting task may be cancelled.
\<close>

datatype wait_end = TimedOut | WaitCancelled | StillWaiting

fun refusal :: "timeout_arg \<Rightarrow> exn option" where
  "refusal NoTimeout = None"
| "refusal (Seconds timeout) = (if timeout \<le> 0 then Some TimeoutError else None)"
| "refusal NotANumber = Some TypeError"

definition wait ::
  "proto \<Rightarrow> lid \<Rightarrow> timeout_arg \<Rightarrow> other list \<Rightarrow> wait_end \<Rightarrow> proto \<times> json result" where
  "wait st listener timeout others wend =
     (let st1 = run_others st others
      in case refusal timeout of
           Some e \<Rightarrow>
             (case wend of
                WaitCancelled \<Rightarrow> (st1, Raised CancelledError)
              | TimedOut \<Rightarrow> (st1, Raised e)
              | StillWaiting \<Rightarrow> (st1, Raised e))
         | None \<Rightarrow>
             (case slot st1 listener of
                Some ret \<Rightarrow> (st1\<lparr>slot := (slot st1)(listener := None)\<rparr>, Returned ret)
              | None \<Rightarrow>
                  (case wend of
                     TimedOut \<Rightarrow>
                       (case timeout of
                          Seconds t \<Rightarrow> (st1, Raised TimeoutError)
                        | NoTimeout \<Rightarrow> (st1, Pending)
                        | NotANumber \<Rightarrow> (st1, Raised TypeError))
                   | WaitCancelled \<Rightarrow> (st1, Raised CancelledError)
                   | StillWaiting \<Rightarrow> (st1, Pending))))"

text \<open>
  The environment of one call of \<^verbatim>\<open>request_with_result\<close>: the identity of the listener
  object it creates, the scripts of its two writes, what other coroutines do while it
  writes and while it waits, and how the wait ends when no reply has come.
\<close>

record rwr_env =
  new_listener :: lid
  w1 :: "wstep list"
  w2 :: "wstep list"
  others1 :: "other list"
  others2 :: "other list"
  wend :: wait_end

text \<open>
  \<open>registered_request\<close> is the call up to the end of \<^verbatim>\<open>await self.request(event, data)\<close>:
  the listener is created and registered, and the request is sent. \<open>request_with_result\<close>
  goes on from there.
\<close>

definition registered_request ::
  "((string \<times> json) list \<Rightarrow> exn + string) \<Rightarrow> proto \<Rightarrow> string \<Rightarrow> addr option \<Rightarrow> rwr_env
     \<Rightarrow> proto \<times> unit result" where
  "registered_request dumps st event data_arg env =
     (let data = (case data_arg of None \<Rightarrow> request_with_result_default | Some a \<Rightarrow> a);
          listener = new_listener env;
          st0 = st\<lparr>objs := (objs st)(listener := ResultEventListener),
                    slot := (slot st)(listener := None)\<rparr>;
          return_event_name = event @ ''_return'';
          st1 = add_listener st0 return_event_name listener
      in request dumps st1 event (Some data) (w1 env) (w2 env) (others1 env))"

definition request_with_result ::
  "((string \<times> json) list \<Rightarrow> exn + string) \<Rightarrow> proto \<Rightarrow> string \<Rightarrow> addr option \<Rightarrow> timeout_arg
     \<Rightarrow> rwr_env \<Rightarrow> proto \<times> json result" where
  "request_with_result dumps st event data_arg timeout env =
     (let listener = new_listener env;
          return_event_name = event @ ''_return''
      in case registered_request dumps st event data_arg env of
           (st2, Pending) \<Rightarrow> (st2, Pending)
         | (st2, Raised e) \<Rightarrow> (remove_listener st2 return_event_name listener, Raised e)
         | (st2, Returned u) \<Rightarrow>
             (case wait st2 listener timeout (others2 env) (wend env) of
                (st3, Pending) \<Rightarrow> (st3, Pending)
              | (st3, Raised e) \<Rightarrow> (remove_listener st3 return_event_name listener, Raised e)
              | (st3, Returned reply) \<Rightarrow>
                  (remove_listener st3 return_event_name listener, Returned reply)))"

text \<open>
  For the statements about \<^verbatim>\<open>request_with_result\<close>: the listener a registry call names,
  the registry calls an environment makes, whether some of them name a given listener,
  how often a trace has seen \<^verbatim>\<open>remove_listener\<close> called with given arguments, and whether a
  listener is a member of the set the registry holds for an event.
\<close>

fun op_listener :: "reg_op \<Rightarrow> lid" where
  "op_listener (Add event x) = x"
| "op_listener (Remove event x) = x"

fun gather_ops :: "gather_env \<Rightarrow> reg_op list" where
  "gather_ops (Gathered ops) = ops"
| "gather_ops (GatherCancelled ops) = ops"

fun other_ops :: "other \<Rightarrow> reg_op list" where
  "other_ops (Reg op) = [op]"
| "other_ops (Deliver event data g) = gather_ops g"

definition mentions :: "lid \<Rightarrow> reg_op list \<Rightarrow> bool" where
  "mentions x ops = list_ex (\<lambda>op. op_listener op = x) ops"

definition removals :: "string \<Rightarrow> lid \<Rightarrow> action list \<Rightarrow> nat" where
  "removals event x tr = length (filter (\<lambda>a. a = RemoveCalled event x) tr)"

definition registered :: "lid \<Rightarrow> string \<Rightarrow> proto \<Rightarrow> bool" where
  "registered x event st = (case map_of (l st) event of None \<Rightarrow> False | Some xs \<Rightarrow> x \<in> set xs)"

text \<open>
  A protocol object with an open transport, a stand-in for \<^verbatim>\<open>json.dumps\<close> on the handshake
  request, the reply of the device to it, and three environments of
  \<^verbatim>\<open>request_with_result\<close>: no reply comes and the wait times out; the first write raises;
  the read loop dispatches the reply while the call waits.
\<close>

definition open_protocol :: proto where
  "open_protocol =
     new_protocol\<lparr>s := Some \<lparr>port = ''/dev/ttyACM0'', is_open = True, closed = False\<rparr>,
                  lt := Some ListenTask\<rparr>"

definition version_dumps :: "(string \<times> json) list \<Rightarrow> exn + string" where
  \<open>version_dumps d = Inr ''{"event": "protocol_version"}''\<close>

definition version_reply :: json where
  "version_reply = JObj [(''event'', JStr ''protocol_version_return''), (''version'', JInt 3)]"

definition env_timeout :: rwr_env where
  "env_timeout =
     \<lparr>new_listener = 7, w1 = [Wrote 29 Resumed], w2 = [Wrote 2 Resumed],
      others1 = [], others2 = [], wend = TimedOut\<rparr>"

definition env_write_raises :: rwr_env where
  "env_write_raises =
     \<lparr>new_listener = 7, w1 = [WriteRaises SerialException], w2 = [],
      others1 = [], others2 = [], wend = StillWaiting\<rparr>"

definition env_reply :: rwr_env where
  "env_reply =
     \<lparr>new_listener = 7, w1 = [Wrote 29 Resumed], w2 = [Wrote 2 Resumed],
      others1 = [], others2 = [Deliver ''protocol_version_return'' version_reply (Gathered [])],
      wend = TimedOut\<rparr>"

text \<open>
  The invariant of a call of \<^verbatim>\<open>request_with_result\<close> between its registration and its
  deregistration of the listener \<open>x\<close> under the event \<open>rv\<close>: the listener is registered for
  that event and for no other, the trace extends \<open>t0\<close> by actions among which \<^verbatim>\<open>remove_listener(rv, x)\<close>
  occurs \<open>c\<close> times, and the listener objects are \<open>ob\<close>.
\<close>

definition inv2 :: "lid \<Rightarrow> string \<Rightarrow> nat \<Rightarrow> action list \<Rightarrow> (lid \<Rightarrow> listener) \<Rightarrow> proto \<Rightarrow> bool" where
  "inv2 x rv c t0 ob st =
     (registered x rv st
      \<and> (\<forall>ev. ev \<noteq> rv \<longrightarrow> \<not> registered x ev st)
      \<and> (\<exists>rest. trace st = t0 @ rest \<and> removals rv x rest = c)
      \<and> objs st = ob)"

text \<open>
  For the statement about the round trip of a message: the bytes a trace has seen written,
  in order; a dictionary whose \<^verbatim>\<open>"event"\<close> item is not the event it is sent with; and
  stand-ins for \<^verbatim>\<open>json.dumps\<close> and \<^verbatim>\<open>json.load\<close> that encode and decode that dictionary
  and the one \<^verbatim>\<open>request\<close> makes of it as the library does, each the inverse of the other.
  The state has the dictionary at address 5 and listener 1 registered for \<^verbatim>\<open>"dialog"\<close>.
\<close>

fun wrote :: "action \<Rightarrow> string" where
  "wrote (Written bytes) = bytes"
| "wrote _ = []"

definition written :: "proto \<Rightarrow> string" where
  "written st = concat (map wrote (trace st))"





subsection \<open>Teardown: \<^verbatim>\<open>cancel_all_listener\<close> and \<^verbatim>\<open>_clean_up\<close>\<close>

fun cancel_of :: "listener \<Rightarrow> cb_result" where
  "cancel_of ResultEventListener = ReturnsAwaitable None"
| "cancel_of ResultQueueListener = ReturnsAwaitable None"
| "cancel_of (Custom cb cn) = cn"

fun cancel_listeners ::
  "proto \<Rightarrow> lid list \<Rightarrow> (lid \<times> exn option) list \<Rightarrow> proto \<times> (lid \<times> exn option) list result" where
  "cancel_listeners st [] tasks = (st, Returned tasks)"
| "cancel_listeners st (x # xs) tasks =
     (case cancel_of (objs st x) of
        RaisesSync e \<Rightarrow> (log (CancelCalled x) st, Raised e)
      | ReturnsNone \<Rightarrow> cancel_listeners (log (CancelCalled x) st) xs tasks
      | ReturnsAwaitable a \<Rightarrow> cancel_listeners (log (CancelCalled x) st) xs (tasks @ [(x, a)]))"

fun cancel_events ::
  "proto \<Rightarrow> (string \<times> lid list) list \<Rightarrow> (lid \<times> exn option) list
     \<Rightarrow> proto \<times> (lid \<times> exn option) list result" where
  "cancel_events st [] tasks = (st, Returned tasks)"
| "cancel_events st ((event, listeners) # rest) tasks =
     (case cancel_listeners st listeners tasks of
        (st1, Returned tasks1) \<Rightarrow> cancel_events st1 rest tasks1
      | (st1, Raised e) \<Rightarrow> (st1, Raised e)
      | (st1, Pending) \<Rightarrow> (st1, Pending))"

definition cancel_all_listener :: "proto \<Rightarrow> gather_env \<Rightarrow> proto \<times> unit result" where
  "cancel_all_listener st g =
     (case cancel_events st (l st) [] of
        (st1, Returned tasks) \<Rightarrow> gather CancelAwaited st1 tasks g
      | (st1, Raised e) \<Rightarrow> (st1, Raised e)
      | (st1, Pending) \<Rightarrow> (st1, Pending))"

text \<open>
  \<^verbatim>\<open>_clean_up\<close> (the names of the source that begin with an underscore lose it here). A
  \<^verbatim>\<open>Serial\<close> object is true in a boolean test, so \<^verbatim>\<open>self.__s and not self.__s.closed\<close> tests
  the presence of the handle and its \<^verbatim>\<open>closed\<close> attribute.
\<close>

definition clean_up :: "proto \<Rightarrow> gather_env \<Rightarrow> gather_env \<Rightarrow> proto \<times> unit result" where
  "clean_up st tg cg =
     (let event = ''closed'';
          data = JObj [(''event'', JStr event)]
      in case trigger_listener st event data tg of
           (st1, Raised e) \<Rightarrow> (st1, Raised e)
         | (st1, Pending) \<Rightarrow> (st1, Pending)
         | (st1, Returned u) \<Rightarrow>
             (case cancel_all_listener st1 cg of
                (st2, Raised e) \<Rightarrow> (st2, Raised e)
              | (st2, Pending) \<Rightarrow> (st2, Pending)
              | (st2, Returned u2) \<Rightarrow>
                  (let st3 = (case s st2 of
                                None \<Rightarrow> st2
                              | Some tr \<Rightarrow>
                                  if \<not> closed tr then log TransportClosed (st2\<lparr>s := None\<rparr>)
                                  else st2)
                   in (st3\<lparr>lt := None, v := JInt 0\<rparr>, Returned ()))))"

subsection \<open>The read loop \<^verbatim>\<open>_listen\<close>\<close>

text \<open>
  \<^verbatim>\<open>flush_input\<close>: the first value of \<^verbatim>\<open>in_waiting\<close> (or the exception reading it raises),
  then one step per turn of its loop: the next value of \<^verbatim>\<open>in_waiting\<close> and the sleep, or an
  exception.
\<close>

datatype fstep = InWaiting nat sleep | FlushRaises exn

fun flush_loop :: "nat \<Rightarrow> fstep list \<Rightarrow> unit result" where
  "flush_loop n [] = (if 0 < n then Pending else Returned ())"
| "flush_loop n (FlushRaises e # fs) = (if 0 < n then Raised e else Returned ())"
| "flush_loop n (InWaiting n' sl # fs) =
     (if 0 < n
      then (case sl of
              CancelledAtSleep \<Rightarrow> Raised CancelledError
            | Resumed \<Rightarrow> flush_loop n' fs)
      else Returned ())"

definition flush_input :: "proto \<Rightarrow> exn + nat \<Rightarrow> fstep list \<Rightarrow> unit result" where
  "flush_input st n0 steps =
     (case s st of
        None \<Rightarrow> Raised AttributeError
      | Some tr \<Rightarrow> (case n0 of Inl e \<Rightarrow> Raised e | Inr n \<Rightarrow> flush_loop n steps))"

text \<open>
  \<^verbatim>\<open>resp[key]\<close> on a decoded value, and the dispatch on the value found under \<^verbatim>\<open>"event"\<close>:
  the test \<^verbatim>\<open>event in self.__l\<close> raises on an unhashable value (a list or a dictionary) and
  is false for a hashable one that is not a string, the keys being event names.
\<close>

fun get_item :: "json \<Rightarrow> string \<Rightarrow> exn + json" where
  "get_item (JObj kv) key = (case map_of kv key of None \<Rightarrow> Inl KeyError | Some x \<Rightarrow> Inr x)"
| "get_item j key = Inl TypeError"

fun dispatch :: "proto \<Rightarrow> json \<Rightarrow> json \<Rightarrow> gather_env \<Rightarrow> proto \<times> unit result" where
  "dispatch st (JStr event) resp g = trigger_listener st event resp g"
| "dispatch st (JArr xs) resp g = (st, Raised TypeError)"
| "dispatch st (JObj kv) resp g = (st, Raised TypeError)"
| "dispatch st j resp g = (st, Returned ())"

text \<open>
  The body of the \<^verbatim>\<open>try\<close> statement of the loop. \<^verbatim>\<open>json.load\<close> is a parameter: it decodes
  the bytes of a line or raises. \<^verbatim>\<open>read_until\<close> returns \<^verbatim>\<open>None\<close> only when it has found the
  handle cleared by another coroutine, which the state then shows;
  \<^verbatim>\<open>io.BytesIO(None)\<close> is an empty stream.
\<close>

definition newline :: string where
  "newline = [CHR 0x0A]"

definition listen_body ::
  "(string \<Rightarrow> exn + json) \<Rightarrow> proto \<Rightarrow> real \<Rightarrow> poll list \<Rightarrow> gather_env \<Rightarrow> proto \<times> unit result" where
  "listen_body loads st before_sec polls g =
     (case read_until newline NoTimeout before_sec polls of
        Pending \<Rightarrow> (st, Pending)
      | Raised e \<Rightarrow> (st, Raised e)
      | Returned data \<Rightarrow>
          (let st1 = (case data of None \<Rightarrow> st\<lparr>s := None\<rparr> | Some b \<Rightarrow> st)
           in case loads (case data of None \<Rightarrow> [] | Some b \<Rightarrow> b) of
                Inl e \<Rightarrow> (st1, Raised e)
              | Inr resp \<Rightarrow>
                  (case get_item resp ''event'' of
                     Inl e \<Rightarrow> (st1, Raised e)
                   | Inr event \<Rightarrow> dispatch st1 event resp g)))"

text \<open>
  The \<^verbatim>\<open>except\<close> clauses: a cancellation, a keyboard interrupt and a \<^verbatim>\<open>SerialException\<close>
  break the loop; a \<^verbatim>\<open>JSONDecodeError\<close> and every other exception are printed and the loop
  goes on.
\<close>

fun breaks :: "exn \<Rightarrow> bool" where
  "breaks CancelledError = True"
| "breaks KeyboardInterrupt = True"
| "breaks SerialException = True"
| "breaks JSONDecodeError = False"
| "breaks e = False"

text \<open>
  One turn of the loop: the registry calls other coroutines make while the turn runs, the
  clock at the start of \<^verbatim>\<open>read_until\<close> and its polls, the environment of the dispatch, and
  the \<^verbatim>\<open>asyncio.sleep(0.0)\<close> that ends the turn, which stands after the \<^verbatim>\<open>try\<close> statement.
\<close>

datatype turn = Turn "reg_op list" real "poll list" gather_env sleep

datatype loop_end = Broke | TestFailed | Escaped exn | Running

fun listen_loop :: "(string \<Rightarrow> exn + json) \<Rightarrow> proto \<Rightarrow> turn list \<Rightarrow> proto \<times> loop_end" where
  "listen_loop loads st [] =
     (case s st of None \<Rightarrow> (st, TestFailed) | Some tr \<Rightarrow> (st, Running))"
| "listen_loop loads st (Turn ops before_sec polls g sl # ts) =
     (case s st of
        None \<Rightarrow> (st, TestFailed)
      | Some tr \<Rightarrow>
          (case listen_body loads (apply_ops st ops) before_sec polls g of
             (st1, Pending) \<Rightarrow> (st1, Running)
           | (st1, Raised e) \<Rightarrow>
               if breaks e then (st1, Broke)
               else (case sl of
                       CancelledAtSleep \<Rightarrow> (st1, Escaped CancelledError)
                     | Resumed \<Rightarrow> listen_loop loads st1 ts)
           | (st1, Returned u) \<Rightarrow>
               (case sl of
                  CancelledAtSleep \<Rightarrow> (st1, Escaped CancelledError)
                | Resumed \<Rightarrow> listen_loop loads st1 ts)))"

definition listen ::
  "(string \<Rightarrow> exn + json) \<Rightarrow> proto \<Rightarrow> exn + nat \<Rightarrow> fstep list \<Rightarrow> turn list
     \<Rightarrow> gather_env \<Rightarrow> gather_env \<Rightarrow> proto \<times> unit result" where
  "listen loads st n0 fsteps turns tg cg =
     (case flush_input st n0 fsteps of
        Raised e \<Rightarrow> (st, Raised e)
      | Pending \<Rightarrow> (st, Pending)
      | Returned u \<Rightarrow>
          (case listen_loop loads st turns of
             (st1, Running) \<Rightarrow> (st1, Pending)
           | (st1, Escaped e) \<Rightarrow> (st1, Raised e)
           | (st1, Broke) \<Rightarrow> clean_up st1 tg cg
           | (st1, TestFailed) \<Rightarrow> clean_up st1 tg cg))"

text \<open>
  For the tests of the read loop: a stand-in for \<^verbatim>\<open>json.load\<close> that decodes the frame of
  the event \<^verbatim>\<open>"x"\<close> and the handshake reply and rejects every other line, the polls that
  deliver a line one byte at a time, and a protocol object with one listener for \<^verbatim>\<open>"x"\<close>.
\<close>

definition demo_loads :: "string \<Rightarrow> exn + json" where
  \<open>demo_loads line =
     (if line = ''{"event":"x"}'' @ [CHR 0x0A] then Inr (JObj [(''event'', JStr ''x'')])
      else if line = ''{"event":"protocol_version_return","version":3}'' @ [CHR 0x0A]
      then Inr (JObj [(''event'', JStr ''protocol_version_return''), (''version'', JInt 3)])
      else Inl JSONDecodeError)\<close>

definition bytewise :: "string \<Rightarrow> poll list" where
  "bytewise line = map (\<lambda>c. Read [c] 0 Resumed) line"

definition listening_protocol :: proto where
  "listening_protocol = open_protocol\<lparr>l := [(''x'', [1])]\<rparr>"

text \<open>
  For the statements about the teardown: the listeners registered for an event, the
  listeners whose \<^verbatim>\<open>cancel\<close> a trace has seen called, how often it has seen the transport
  closed, and callbacks that neither raise nor call the registry synchronously. The last state has a \<^verbatim>\<open>ResultEventListener\<close> waiting for
  the reply to a \<^verbatim>\<open>dialog\<close> request while the link breaks.
\<close>

definition listeners_of :: "proto \<Rightarrow> string \<Rightarrow> lid list" where
  "listeners_of st event = (case map_of (l st) event of None \<Rightarrow> [] | Some xs \<Rightarrow> xs)"

fun cancelled :: "action \<Rightarrow> lid list" where
  "cancelled (CancelCalled x) = [x]"
| "cancelled _ = []"

definition cancel_calls :: "proto \<Rightarrow> lid list" where
  "cancel_calls st = concat (map cancelled (trace st))"

definition closes :: "proto \<Rightarrow> nat" where
  "closes st = length (filter (\<lambda>a. a = TransportClosed) (trace st))"

definition silent :: "listener \<Rightarrow> json \<Rightarrow> bool" where
  "silent obj data = (\<not> raises (sync_result obj data) \<and> sync_ops obj data = [])"



subsection \<open>\<^verbatim>\<open>close\<close>, \<^verbatim>\<open>_init\<close> and \<^verbatim>\<open>init\<close>\<close>

text \<open>
  \<^verbatim>\<open>close\<close> cancels the read task and awaits it. The task is suspended at one of the awaits
  of \<^verbatim>\<open>_listen\<close>, and the cancellation is thrown there: inside \<^verbatim>\<open>flush_input\<close>, inside
  \<^verbatim>\<open>read_until\<close> or the dispatch (both within the \<^verbatim>\<open>try\<close> statement, whose \<^verbatim>\<open>except\<close> clause
  breaks the loop, so that the cleanup follows), or at the sleep that ends a turn of the
  loop. Or the task is done already, with or without an exception.
\<close>

datatype suspension = InFlushInput | InReadUntil | InTriggerListener | InLoopSleep

datatype task_state = Suspended suspension | Done "exn option"

fun cancel_listen :: "proto \<Rightarrow> suspension \<Rightarrow> gather_env \<Rightarrow> gather_env \<Rightarrow> proto \<times> unit result" where
  "cancel_listen st InFlushInput tg cg = (st, Raised CancelledError)"
| "cancel_listen st InReadUntil tg cg = clean_up st tg cg"
| "cancel_listen st InTriggerListener tg cg = clean_up st tg cg"
| "cancel_listen st InLoopSleep tg cg = (st, Raised CancelledError)"

definition close :: "proto \<Rightarrow> task_state \<Rightarrow> gather_env \<Rightarrow> gather_env \<Rightarrow> proto \<times> unit result" where
  "close st ts tg cg =
     (case lt st of
        None \<Rightarrow> (st, Returned ())
      | Some t \<Rightarrow>
          (case ts of
             Done None \<Rightarrow> (st, Returned ())
           | Done (Some e) \<Rightarrow> (if e = CancelledError then (st, Returned ()) else (st, Raised e))
           | Suspended p \<Rightarrow>
               (case cancel_listen st p tg cg of
                  (st1, Returned u) \<Rightarrow> (st1, Returned ())
                | (st1, Pending) \<Rightarrow> (st1, Pending)
                | (st1, Raised e) \<Rightarrow>
                    (if e = CancelledError then (st1, Returned ()) else (st1, Raised e)))))"

text \<open>
  \<^verbatim>\<open>_init\<close> is \<open>init_port\<close> here, and \<open>handshake\<close> is its part after the transport is open.
  The environment of one connection attempt: what the constructor of \<^verbatim>\<open>serial.Serial\<close>
  does (\<^verbatim>\<open>SerialException\<close> is a subclass of \<^verbatim>\<open>OSError\<close>), what \<^verbatim>\<open>open()\<close> does if the port
  is not open yet, the script of the first write, the address of the dictionary \<^verbatim>\<open>{}\<close>
  made for the handshake, the environment of the handshake request, and, for the case
  that the attempt fails, how the read task stands when \<^verbatim>\<open>close\<close> cancels it and the
  environment of its cleanup.
\<close>

datatype open_result = Opened transport | OpenRaises exn

record port_env =
  serial_open :: open_result
  open_call :: "exn option"
  w0 :: "wstep list"
  new_dict :: addr
  rwr :: rwr_env
  read_task :: task_state
  tg :: gather_env
  cg :: gather_env

fun is_os_error :: "exn \<Rightarrow> bool" where
  "is_os_error OSError = True"
| "is_os_error SerialException = True"
| "is_os_error TimeoutError = True"
| "is_os_error e = False"

definition handshake ::
  "((string \<times> json) list \<Rightarrow> exn + string) \<Rightarrow> proto \<Rightarrow> port_env \<Rightarrow> proto \<times> bool result" where
  "handshake dumps st env =
     (case write_data st crlf (w0 env) of
        (st2, Raised e) \<Rightarrow> (st2, Raised e)
      | (st2, Pending) \<Rightarrow> (st2, Pending)
      | (st2, Returned u) \<Rightarrow>
          (let st3 = st2\<lparr>lt := Some ListenTask, heap := (heap st2)(new_dict env := [])\<rparr>
           in case request_with_result dumps st3 ''protocol_version'' (Some (new_dict env))
                     (Seconds (1 / 4)) (rwr env) of
                (st4, Pending) \<Rightarrow> (st4, Pending)
              | (st4, r) \<Rightarrow>
                  (case (case r of
                           Returned resp \<Rightarrow> get_item resp ''version''
                         | Raised e \<Rightarrow> Inl e
                         | Pending \<Rightarrow> Inl OtherError) of
                     Inr version \<Rightarrow> (st4\<lparr>v := version\<rparr>, Returned True)
                   | Inl e \<Rightarrow>
                       (case close st4 (read_task env) (tg env) (cg env) of
                          (st5, Returned u) \<Rightarrow> (st5, Returned False)
                        | (st5, Raised e5) \<Rightarrow> (st5, Raised e5)
                        | (st5, Pending) \<Rightarrow> (st5, Pending)))))"

definition init_port ::
  "((string \<times> json) list \<Rightarrow> exn + string) \<Rightarrow> proto \<Rightarrow> string \<Rightarrow> nat \<Rightarrow> port_env
     \<Rightarrow> proto \<times> bool result" where
  "init_port dumps st port_name baudrate env =
     (case serial_open env of
        OpenRaises e \<Rightarrow> (if is_os_error e then (st, Returned False) else (st, Raised e))
      | Opened tr \<Rightarrow>
          (let st1 = st\<lparr>s := Some tr\<rparr>
           in if \<not> is_open tr
              then (case open_call env of
                      Some e \<Rightarrow> (if is_os_error e then (st1, Returned False) else (st1, Raised e))
                    | None \<Rightarrow> handshake dumps (st1\<lparr>s := Some (tr\<lparr>is_open := True\<rparr>)\<rparr>) env)
              else handshake dumps st1 env))"

fun init_each ::
  "((string \<times> json) list \<Rightarrow> exn + string) \<Rightarrow> proto \<Rightarrow> nat \<Rightarrow> (string \<times> port_env) list
     \<Rightarrow> proto \<times> bool result" where
  "init_each dumps st baudrate [] = (st, Returned False)"
| "init_each dumps st baudrate ((device, env) # rest) =
     (case init_port dumps st device baudrate env of
        (st1, Returned ok) \<Rightarrow>
          (if ok then (st1, Returned True) else init_each dumps st1 baudrate rest)
      | (st1, Raised e) \<Rightarrow> (st1, Raised e)
      | (st1, Pending) \<Rightarrow> (st1, Pending))"

text \<open>
  \<^verbatim>\<open>init\<close>: with an empty port name every port that \<^verbatim>\<open>comports\<close> lists is tried in turn
  (each with its environment), else the one named.
\<close>

definition init ::
  "((string \<times> json) list \<Rightarrow> exn + string) \<Rightarrow> proto \<Rightarrow> string \<Rightarrow> nat
     \<Rightarrow> (string \<times> port_env) list \<Rightarrow> port_env \<Rightarrow> proto \<times> bool result" where
  "init dumps st port_name baudrate comports env =
     (if port_name = [] then init_each dumps st baudrate comports
      else init_port dumps st port_name baudrate env)"

definition version :: "proto \<Rightarrow> json" where
  "version st = v st"

text \<open>
  Two environments of a connection attempt on which no reply comes before the timeout.
  They differ in where \<^verbatim>\<open>close\<close> finds the read task: polling inside \<^verbatim>\<open>read_until\<close>, or at
  the sleep that ends a turn of the loop, where a device that sends blank lines leaves
  it after every byte. In the third the reply arrives.
\<close>

definition usb_port :: transport where
  "usb_port = \<lparr>port = ''/dev/ttyACM0'', is_open = True, closed = False\<rparr>"

definition silent_device :: port_env where
  "silent_device =
     \<lparr>serial_open = Opened usb_port, open_call = None, w0 = [Wrote 2 Resumed], new_dict = 9,
      rwr = env_timeout, read_task = Suspended InReadUntil, tg = Gathered [], cg = Gathered []\<rparr>"

definition blank_line_device :: port_env where
  "blank_line_device = silent_device\<lparr>read_task := Suspended InLoopSleep\<rparr>"

definition answering_device :: port_env where
  "answering_device = silent_device\<lparr>rwr := env_reply\<rparr>"

section \<open>Properties\<close>

subsection \<open>\<^verbatim>\<open>read_until\<close>\<close>

lemma accumulated_Cons: "accumulated (Suc k) (p # ps) = data_of p @ accumulated k ps"
  by (simp add: accumulated_def)

lemma accumulated_0: "accumulated 0 ps = []"
  by (simp add: accumulated_def)

lemma read_until_loop_returns_iff:
  assumes "\<forall>p\<in>set polls. is_read p"
  shows "read_until_loop e t b buf polls = Returned (Some r) \<longleftrightarrow>
    (\<exists>k<length polls. r = buf @ accumulated (Suc k) polls
       \<and> (endswith (buf @ accumulated (Suc k) polls) e \<or> expired t b (now_of (polls ! k)))
       \<and> (\<forall>j<k. \<not> (endswith (buf @ accumulated (Suc j) polls) e \<or> expired t b (now_of (polls ! j)))))"
  using assms
proof (induction polls arbitrary: buf)
  case Nil
  then show ?case by simp
next
  case (Cons p ps)
  from Cons.prems obtain d n where p: "p = Read d n Resumed"
    by (cases p rule: is_read.cases) auto
  let ?X = "\<lambda>bf qs j. endswith (bf @ accumulated (Suc j) qs) e \<or> expired t b (now_of (qs ! j))"
  show ?case
  proof (cases "endswith (buf @ d) e \<or> expired t b n")
    case True
    have x0: "?X buf (p # ps) 0" using True p by (simp add: accumulated_Cons accumulated_0)
    have lhs: "read_until_loop e t b buf (p # ps) = Returned (Some (buf @ d))"
      using True p by simp
    show ?thesis
    proof
      assume "read_until_loop e t b buf (p # ps) = Returned (Some r)"
      with lhs have "r = buf @ d" by simp
      then show "\<exists>k<length (p # ps). r = buf @ accumulated (Suc k) (p # ps) \<and> ?X buf (p # ps) k \<and> (\<forall>j<k. \<not> ?X buf (p # ps) j)"
        using x0 p by (intro exI[of _ 0]) (simp add: accumulated_Cons accumulated_0)
    next
      assume "\<exists>k<length (p # ps). r = buf @ accumulated (Suc k) (p # ps) \<and> ?X buf (p # ps) k \<and> (\<forall>j<k. \<not> ?X buf (p # ps) j)"
      then obtain k where k: "r = buf @ accumulated (Suc k) (p # ps)" "\<forall>j<k. \<not> ?X buf (p # ps) j" by blast
      have "k = 0" using k(2) x0 by (cases k) auto
      then show "read_until_loop e t b buf (p # ps) = Returned (Some r)"
        using lhs k(1) p by (simp add: accumulated_Cons accumulated_0)
    qed
  next
    case False
    have nx0: "\<not> ?X buf (p # ps) 0" using False p by (simp add: accumulated_Cons accumulated_0)
    have lhs: "read_until_loop e t b buf (p # ps) = read_until_loop e t b (buf @ d) ps"
      using False p by simp
    have ih: "read_until_loop e t b (buf @ d) ps = Returned (Some r) \<longleftrightarrow>
       (\<exists>k<length ps. r = (buf @ d) @ accumulated (Suc k) ps \<and> ?X (buf @ d) ps k \<and> (\<forall>j<k. \<not> ?X (buf @ d) ps j))"
      using Cons.IH[of "buf @ d"] Cons.prems by simp
    have shift: "\<And>j. ?X buf (p # ps) (Suc j) = ?X (buf @ d) ps j"
      using p by (simp add: accumulated_Cons)
    show ?thesis
    proof
      assume "read_until_loop e t b buf (p # ps) = Returned (Some r)"
      with lhs ih obtain k where k: "k < length ps" "r = (buf @ d) @ accumulated (Suc k) ps"
         "?X (buf @ d) ps k" "\<forall>j<k. \<not> ?X (buf @ d) ps j" by auto
      have all: "\<forall>j<Suc k. \<not> ?X buf (p # ps) j"
      proof (intro allI impI)
        fix j assume "j < Suc k"
        show "\<not> ?X buf (p # ps) j"
        proof (cases j)
          case 0 then show ?thesis using nx0 by simp
        next
          case (Suc j')
          with \<open>j < Suc k\<close> have "j' < k" by simp
          with k(4) have "\<not> ?X (buf @ d) ps j'" by blast
          then show ?thesis unfolding Suc shift .
        qed
      qed
      have "Suc k < length (p # ps)" using k(1) by simp
      moreover have "r = buf @ accumulated (Suc (Suc k)) (p # ps)"
        using k(2) p by (simp add: accumulated_Cons)
      moreover have "?X buf (p # ps) (Suc k)" using k(3) unfolding shift .
      ultimately show "\<exists>k<length (p # ps). r = buf @ accumulated (Suc k) (p # ps) \<and> ?X buf (p # ps) k \<and> (\<forall>j<k. \<not> ?X buf (p # ps) j)"
        using all by blast
    next
      assume "\<exists>k<length (p # ps). r = buf @ accumulated (Suc k) (p # ps) \<and> ?X buf (p # ps) k \<and> (\<forall>j<k. \<not> ?X buf (p # ps) j)"
      then obtain k where k: "k < length (p # ps)" "r = buf @ accumulated (Suc k) (p # ps)"
        "?X buf (p # ps) k" "\<forall>j<k. \<not> ?X buf (p # ps) j" by blast
      from k(3) nx0 obtain k' where k': "k = Suc k'" by (cases k) auto
      have "k' < length ps" using k(1) k' by simp
      moreover have "r = (buf @ d) @ accumulated (Suc k') ps" using k(2) k' p by (simp add: accumulated_Cons)
      moreover have "?X (buf @ d) ps k'" using k(3) unfolding k' shift .
      moreover have "\<forall>j<k'. \<not> ?X (buf @ d) ps j"
      proof (intro allI impI)
        fix j assume "j < k'"
        then have "Suc j < k" using k' by simp
        with k(4) have "\<not> ?X buf (p # ps) (Suc j)" by blast
        then show "\<not> ?X (buf @ d) ps j" unfolding shift .
      qed
      ultimately have "read_until_loop e t b (buf @ d) ps = Returned (Some r)"
        using ih by blast
      then show "read_until_loop e t b buf (p # ps) = Returned (Some r)" using lhs by simp
    qed
  qed
qed

lemma read_until_loop_all_reads:
  assumes "\<forall>p\<in>set polls. is_read p"
  shows "read_until_loop e t b buf polls = Pending \<or> (\<exists>r. read_until_loop e t b buf polls = Returned (Some r))"
  using assms
proof (induction polls arbitrary: buf)
  case Nil
  then show ?case by simp
next
  case (Cons p ps)
  from Cons.prems obtain d n where p: "p = Read d n Resumed"
    by (cases p rule: is_read.cases) auto
  show ?case using Cons.IH[of "buf @ d"] Cons.prems p by (simp add: Let_def)
qed

lemma read_until_loop_absent:
  assumes "\<forall>j<length rs. is_read (rs ! j) \<and>
             \<not> (endswith (buf @ accumulated (Suc j) rs) e \<or> expired t b (now_of (rs ! j)))"
  shows "read_until_loop e t b buf (rs @ Absent # ps) = Returned None"
  using assms
proof (induction rs arbitrary: buf)
  case Nil
  then show ?case by simp
next
  case (Cons p rs)
  from Cons.prems have "is_read p" by auto
  then obtain d n where p: "p = Read d n Resumed"
    by (cases p rule: is_read.cases) auto
  from Cons.prems have nx0: "\<not> (endswith (buf @ d) e \<or> expired t b n)"
    using p by (auto simp: accumulated_Cons accumulated_0)
  have "\<forall>j<length rs. is_read (rs ! j) \<and>
             \<not> (endswith ((buf @ d) @ accumulated (Suc j) rs) e \<or> expired t b (now_of (rs ! j)))"
  proof (intro allI impI)
    fix j assume "j < length rs"
    then have "Suc j < length (p # rs)" by simp
    with Cons.prems have "is_read ((p # rs) ! Suc j) \<and>
             \<not> (endswith (buf @ accumulated (Suc (Suc j)) (p # rs)) e \<or> expired t b (now_of ((p # rs) ! Suc j)))"
      by blast
    then show "is_read (rs ! j) \<and>
             \<not> (endswith ((buf @ d) @ accumulated (Suc j) rs) e \<or> expired t b (now_of (rs ! j)))"
      using p by (simp add: accumulated_Cons)
  qed
  from Cons.IH[OF this] show ?case using nx0 p by simp
qed

lemma read_until_first_exit:
  assumes "\<forall>p\<in>set polls. is_read p"
  shows "(read_until e timeout before_sec polls = Returned (Some buffer) \<longleftrightarrow>
            (\<exists>k<length polls. buffer = accumulated (Suc k) polls
                \<and> exits e timeout before_sec polls k
                \<and> (\<forall>j<k. \<not> exits e timeout before_sec polls j)))
       \<and> (read_until e timeout before_sec polls = Pending \<longleftrightarrow>
            (\<forall>k<length polls. \<not> exits e timeout before_sec polls k))"
proof
  show ret: "\<And>buffer. read_until e timeout before_sec polls = Returned (Some buffer) \<longleftrightarrow>
            (\<exists>k<length polls. buffer = accumulated (Suc k) polls
                \<and> exits e timeout before_sec polls k
                \<and> (\<forall>j<k. \<not> exits e timeout before_sec polls j))"
    using read_until_loop_returns_iff[OF assms, of e timeout before_sec "[]"]
    by (simp add: read_until_def exits_def)
  show "read_until e timeout before_sec polls = Pending \<longleftrightarrow>
            (\<forall>k<length polls. \<not> exits e timeout before_sec polls k)"
  proof
    assume pend: "read_until e timeout before_sec polls = Pending"
    show "\<forall>k<length polls. \<not> exits e timeout before_sec polls k"
    proof (rule ccontr)
      assume "\<not> (\<forall>k<length polls. \<not> exits e timeout before_sec polls k)"
      then have ex: "\<exists>k. k < length polls \<and> exits e timeout before_sec polls k" by blast
      define m where "m = (LEAST k. k < length polls \<and> exits e timeout before_sec polls k)"
      have m: "m < length polls \<and> exits e timeout before_sec polls m"
        unfolding m_def using ex by (rule LeastI_ex)
      have least: "\<forall>j<m. \<not> exits e timeout before_sec polls j"
      proof (intro allI impI)
        fix j assume jm: "j < m"
        then have "j < length polls" using m by simp
        moreover have "\<not> (j < length polls \<and> exits e timeout before_sec polls j)"
          using jm unfolding m_def by (rule not_less_Least)
        ultimately show "\<not> exits e timeout before_sec polls j" by blast
      qed
      have "read_until e timeout before_sec polls = Returned (Some (accumulated (Suc m) polls))"
        using ret[of "accumulated (Suc m) polls"] m least by blast
      with pend show False by simp
    qed
  next
    assume none: "\<forall>k<length polls. \<not> exits e timeout before_sec polls k"
    have "\<not> (\<exists>r. read_until e timeout before_sec polls = Returned (Some r))"
      using ret none by blast
    then show "read_until e timeout before_sec polls = Pending"
      using read_until_loop_all_reads[OF assms, of e timeout before_sec "[]"]
      by (simp add: read_until_def)
  qed
qed

text \<open>The exit test of the loop is the exit test of the interface.\<close>

lemma exits_exit_due: "exits e timeout before_sec polls k = exit_due e timeout before_sec polls k"
proof (cases timeout)
  case NoTimeout
  then show ?thesis by (simp add: exits_def exit_due_def)
next
  case (Seconds t)
  have "(now_of (polls ! k) - before_sec > t) = (before_sec + t < now_of (polls ! k))"
    by linarith
  then show ?thesis using Seconds by (simp add: exits_def exit_due_def)
next
  case NotANumber
  then show ?thesis by (simp add: exits_def exit_due_def)
qed

text \<open>
  Claim C5. While the transport stays present, its reads succeed and the task is not
  cancelled, \<^verbatim>\<open>read_until\<close> returns at the first poll after which the buffer ends with the
  delimiter or, when a numeric timeout is given, at which the clock has passed the start
  of the call plus the timeout; it returns the accumulated buffer of that poll, never that
  of an earlier one, and it keeps polling as long as no poll meets the exit test. With no
  timeout the exit test is the delimiter alone. The timeout is counted from the start of
  the call, whenever the bytes have come, and a clock that reads exactly the deadline has
  not passed it.
\<close>

theorem read_until_returns_at_first_exit:
  assumes "\<forall>p\<in>set polls. is_read p"
  shows "(read_until e timeout before_sec polls = Returned (Some buffer) \<longleftrightarrow>
            (\<exists>k<length polls. buffer = accumulated (Suc k) polls
                \<and> exit_due e timeout before_sec polls k
                \<and> (\<forall>j<k. \<not> exit_due e timeout before_sec polls j)))
       \<and> (read_until e timeout before_sec polls = Pending \<longleftrightarrow>
            (\<forall>k<length polls. \<not> exit_due e timeout before_sec polls k))"
  using read_until_first_exit[OF assms, of e timeout before_sec buffer]
  by (simp add: exits_exit_due)

theorem read_until_returns_at_first_exit_witness:
  \<open>read_until [CHR 0x0A] NoTimeout 0 frame_polls = Returned (Some (''{"event":"x"}'' @ [CHR 0x0A]))
   \<and> (\<exists>k<length frame_polls. ''{"event":"x"}'' @ [CHR 0x0A] = accumulated (Suc k) frame_polls
          \<and> exit_due [CHR 0x0A] NoTimeout 0 frame_polls k
          \<and> (\<forall>j<k. \<not> exit_due [CHR 0x0A] NoTimeout 0 frame_polls j))
   \<and> read_until ''ab'' (Seconds 2) 10 slow_polls = Returned (Some ''axa'')
   \<and> (\<exists>k<length slow_polls. ''axa'' = accumulated (Suc k) slow_polls
          \<and> exit_due ''ab'' (Seconds 2) 10 slow_polls k
          \<and> (\<forall>j<k. \<not> exit_due ''ab'' (Seconds 2) 10 slow_polls j))
   \<and> now_of (slow_polls ! 1) = 10 + 2
   \<and> read_until ''ab'' (Seconds 3) 10 slow_polls = Returned (Some ''axab'')
   \<and> read_until ''ab'' NoTimeout 10 slow_polls = Returned (Some ''axab'')
   \<and> read_until ''ab'' (Seconds 2) 10 (take 2 slow_polls) = Pending\<close>
proof -
  have h: "\<forall>p\<in>set frame_polls. is_read p"
    by (simp add: frame_polls_def)
  have r: \<open>read_until [CHR 0x0A] NoTimeout 0 frame_polls = Returned (Some (''{"event":"x"}'' @ [CHR 0x0A]))\<close>
    by (simp add: frame_polls_def read_until_def endswith_def)
  have h': "\<forall>p\<in>set slow_polls. is_read p"
    by (simp add: slow_polls_def)
  have r': "read_until ''ab'' (Seconds 2) 10 slow_polls = Returned (Some ''axa'')"
    by (simp add: slow_polls_def read_until_def endswith_def)
  have e: "now_of (slow_polls ! 1) = 10 + 2"
    "read_until ''ab'' (Seconds 3) 10 slow_polls = Returned (Some ''axab'')"
    "read_until ''ab'' NoTimeout 10 slow_polls = Returned (Some ''axab'')"
    "read_until ''ab'' (Seconds 2) 10 (take 2 slow_polls) = Pending"
    by (simp_all add: slow_polls_def read_until_def endswith_def)
  show ?thesis
    using h r h' r' e
      read_until_returns_at_first_exit[OF h, of "[CHR 0x0A]" NoTimeout 0 \<open>''{"event":"x"}'' @ [CHR 0x0A]\<close>]
      read_until_returns_at_first_exit[OF h', of "''ab''" "Seconds 2" 10 "''axa''"]
    by blast
qed

text \<open>
  Claim C10. When the transport handle is \<^verbatim>\<open>None\<close> at the loop test of \<^verbatim>\<open>read_until\<close>, at
  the call or after any number of polls that did not meet the exit test, the call returns
  \<^verbatim>\<open>None\<close> and not the bytes accumulated so far, for every timeout argument.
\<close>

theorem read_until_absent_returns_None:
  assumes "\<forall>j<length rs. is_read (rs ! j) \<and> \<not> exits e timeout before_sec rs j"
  shows "read_until e timeout before_sec (rs @ Absent # ps) = Returned None"
  using read_until_loop_absent[of rs "[]" e timeout before_sec ps] assms
  by (simp add: read_until_def exits_def)

theorem read_until_absent_returns_None_witness:
  "read_until [CHR 0x0A] NoTimeout 0 ([Read ''ab'' 1 Resumed, Read ''c'' 2 Resumed] @ Absent # []) = Returned None"
proof -
  have h: "\<forall>j<length [Read ''ab'' 1 Resumed, Read ''c'' 2 Resumed].
       is_read ([Read ''ab'' 1 Resumed, Read ''c'' 2 Resumed] ! j)
       \<and> \<not> exits [CHR 0x0A] NoTimeout 0 [Read ''ab'' 1 Resumed, Read ''c'' 2 Resumed] j"
    by (simp add: less_Suc_eq exits_def accumulated_def endswith_def nth_Cons')
  show ?thesis
    using h read_until_absent_returns_None[OF h, of "[]"] by blast
qed

subsection \<open>The registry and the dispatch\<close>

lemma log_fields [simp]:
  "s (log a st) = s st" "v (log a st) = v st" "l (log a st) = l st" "lt (log a st) = lt st"
  "objs (log a st) = objs st" "slot (log a st) = slot st" "queue (log a st) = queue st"
  "heap (log a st) = heap st" "task_order (log a st) = task_order st"
  "trace (log a st) = trace st @ [a]"
  by (simp_all add: log_def)

lemma calls_log [simp]: "calls (log a st) = calls st @ called a"
  by (simp add: calls_def)

lemma awaits_log [simp]: "awaits (log a st) = awaits st @ awaited a"
  by (simp add: awaits_def)

lemma calls_update [simp]:
  "calls (st\<lparr>l := x\<rparr>) = calls st" "calls (st\<lparr>slot := y\<rparr>) = calls st"
  "calls (st\<lparr>queue := z\<rparr>) = calls st"
  by (simp_all add: calls_def)

lemma awaits_update [simp]:
  "awaits (st\<lparr>l := x\<rparr>) = awaits st" "awaits (st\<lparr>slot := y\<rparr>) = awaits st"
  "awaits (st\<lparr>queue := z\<rparr>) = awaits st"
  by (simp_all add: awaits_def)

lemma add_listener_frame [simp]:
  "calls (add_listener st ev x) = calls st" "awaits (add_listener st ev x) = awaits st"
  "objs (add_listener st ev x) = objs st" "s (add_listener st ev x) = s st"
  "v (add_listener st ev x) = v st" "lt (add_listener st ev x) = lt st"
  "slot (add_listener st ev x) = slot st" "heap (add_listener st ev x) = heap st"
  "task_order (add_listener st ev x) = task_order st"
  by (simp_all add: add_listener_def Let_def split: option.splits)

lemma remove_listener_frame [simp]:
  "calls (remove_listener st ev x) = calls st" "awaits (remove_listener st ev x) = awaits st"
  "objs (remove_listener st ev x) = objs st" "s (remove_listener st ev x) = s st"
  "v (remove_listener st ev x) = v st" "lt (remove_listener st ev x) = lt st"
  "slot (remove_listener st ev x) = slot st" "heap (remove_listener st ev x) = heap st"
  "task_order (remove_listener st ev x) = task_order st"
  by (simp_all add: remove_listener_def split: option.splits)

lemma apply_op_frame [simp]:
  "calls (apply_op st op) = calls st" "awaits (apply_op st op) = awaits st"
  "objs (apply_op st op) = objs st" "s (apply_op st op) = s st"
  "v (apply_op st op) = v st" "lt (apply_op st op) = lt st"
  "slot (apply_op st op) = slot st" "heap (apply_op st op) = heap st"
  "task_order (apply_op st op) = task_order st"
  by (cases op; simp)+

lemma apply_ops_Nil [simp]: "apply_ops st [] = st"
  by (simp add: apply_ops_def)

lemma apply_ops_Cons [simp]: "apply_ops st (op # ops) = apply_ops (apply_op st op) ops"
  by (simp add: apply_ops_def)

lemma apply_ops_frame [simp]:
  "calls (apply_ops st ops) = calls st" "awaits (apply_ops st ops) = awaits st"
  "objs (apply_ops st ops) = objs st" "s (apply_ops st ops) = s st"
  "v (apply_ops st ops) = v st" "lt (apply_ops st ops) = lt st"
  "slot (apply_ops st ops) = slot st" "heap (apply_ops st ops) = heap st"
  "task_order (apply_ops st ops) = task_order st"
  by (induction ops arbitrary: st; simp)+

lemma lookup_add_listener:
  "map_of (l (add_listener st ev x)) event =
     (if event = ev then Some (set_add (case map_of (l st) ev of None \<Rightarrow> [] | Some xs \<Rightarrow> xs) x)
      else map_of (l st) event)"
  by (auto simp: add_listener_def Let_def update_conv' split: option.splits)

lemma lookup_remove_listener:
  "map_of (l (remove_listener st ev x)) event =
     (if event = ev then map_option (\<lambda>xs. set_discard xs x) (map_of (l st) ev)
      else map_of (l st) event)"
  by (auto simp: remove_listener_def update_conv' split: option.splits)

lemma lookup_apply_op:
  "op_event op \<noteq> event \<Longrightarrow> map_of (l (apply_op st op)) event = map_of (l st) event"
  by (cases op) (simp_all add: lookup_add_listener lookup_remove_listener)

lemma lookup_apply_ops:
  "list_all (\<lambda>op. op_event op \<noteq> event) ops \<Longrightarrow> map_of (l (apply_ops st ops)) event = map_of (l st) event"
  by (induction ops arbitrary: st) (simp_all add: lookup_apply_op)

text \<open>What every call of a callback does, whatever the callback.\<close>

lemma call_callback_result:
  "snd (call_callback st x data) = sync_result (objs st x) data"
  "calls (fst (call_callback st x data)) = calls st @ [(x, data)]"
  "awaits (fst (call_callback st x data)) = awaits st"
  by (cases "objs st x"; simp add: call_callback_def)+

lemma quiet_writes_nothing:
  "list_all (\<lambda>op. op_event op \<noteq> event) ops \<Longrightarrow> \<not> writes_set st event ops"
  by (induction ops arbitrary: st) (simp_all add: lookup_apply_op)

lemma quiet_noticed:
  "quiet (objs st x) event data \<Longrightarrow> \<not> unnoticed_change st st1 event x data"
  by (simp add: quiet_def unnoticed_change_def quiet_writes_nothing)

lemma call_callback_quiet:
  assumes "quiet (objs st x) event data"
  shows "\<exists>st1. call_callback st x data = (st1, sync_result (objs st x) data)
           \<and> map_of (l st1) event = map_of (l st) event \<and> objs st1 = objs st
           \<and> task_order st1 = task_order st
           \<and> calls st1 = calls st @ [(x, data)] \<and> awaits st1 = awaits st
           \<and> (\<forall>y. objs st y = ResultEventListener \<and> (y = x \<or> slot st y = Some data)
                  \<longrightarrow> slot st1 y = Some data)"
  using assms
  by (cases "objs st x")
     (auto simp: call_callback_def quiet_def lookup_apply_ops)

lemma for_listeners_quiet:
  assumes "map_of (l st) event = Some xs" "pos \<le> length xs"
    "\<forall>i. pos \<le> i \<and> i < length xs \<longrightarrow> quiet (objs st (xs ! i)) event data"
  shows "\<exists>st'. for_listeners event data (length xs) pos st tasks =
            (st', Returned (tasks @ concat (map (\<lambda>x. awaitable_of (x, sync_result (objs st x) data)) (drop pos xs))))
          \<and> map_of (l st') event = Some xs \<and> objs st' = objs st
          \<and> task_order st' = task_order st
          \<and> calls st' = calls st @ map (\<lambda>x. (x, data)) (drop pos xs)
          \<and> awaits st' = awaits st
          \<and> (\<forall>y. objs st y = ResultEventListener \<and> (y \<in> set (drop pos xs) \<or> slot st y = Some data)
                 \<longrightarrow> slot st' y = Some data)"
  using assms
proof (induction "length xs - pos" arbitrary: pos st tasks)
  case 0
  then have "pos = length xs" by simp
  then show ?case
    using "0.prems" by (subst for_listeners.simps) simp
next
  case (Suc n)
  then have lt: "pos < length xs" by simp
  let ?x = "xs ! pos"
  have q: "quiet (objs st ?x) event data" using Suc.prems lt by simp
  from call_callback_quiet[OF q] obtain st1 where
    st1: "call_callback st ?x data = (st1, sync_result (objs st ?x) data)"
      "map_of (l st1) event = map_of (l st) event" "objs st1 = objs st"
      "task_order st1 = task_order st"
      "calls st1 = calls st @ [(?x, data)]" "awaits st1 = awaits st"
    and sl1: "\<forall>y. objs st y = ResultEventListener \<and> (y = ?x \<or> slot st y = Some data)
                  \<longrightarrow> slot st1 y = Some data" by blast
  have nr: "\<not> raises (sync_result (objs st ?x) data)" using q by (simp add: quiet_def)
  have nu: "\<not> unnoticed_change st st1 event ?x data" by (rule quiet_noticed[OF q])
  have dr: "drop pos xs = ?x # drop (Suc pos) xs"
    using lt by (simp add: Cons_nth_drop_Suc)
  have n: "n = length xs - Suc pos" using Suc.hyps(2) by simp
  have pre: "map_of (l st1) event = Some xs" "Suc pos \<le> length xs"
    "\<forall>i. Suc pos \<le> i \<and> i < length xs \<longrightarrow> quiet (objs st1 (xs ! i)) event data"
    using st1 Suc.prems lt by auto
  have ih: "\<exists>st'. for_listeners event data (length xs) (Suc pos) st1 tk =
            (st', Returned (tk @ concat (map (\<lambda>x. awaitable_of (x, sync_result (objs st1 x) data)) (drop (Suc pos) xs))))
          \<and> map_of (l st') event = Some xs \<and> objs st' = objs st1
          \<and> task_order st' = task_order st1
          \<and> calls st' = calls st1 @ map (\<lambda>x. (x, data)) (drop (Suc pos) xs)
          \<and> awaits st' = awaits st1
          \<and> (\<forall>y. objs st1 y = ResultEventListener \<and> (y \<in> set (drop (Suc pos) xs) \<or> slot st1 y = Some data)
                 \<longrightarrow> slot st' y = Some data)" for tk
    by (rule Suc.hyps(1)[OF n pre])
  have slots: "\<forall>y. objs st y = ResultEventListener \<and> (y \<in> set (drop pos xs) \<or> slot st y = Some data)
                 \<longrightarrow> slot st' y = Some data"
    if "\<forall>y. objs st1 y = ResultEventListener \<and> (y \<in> set (drop (Suc pos) xs) \<or> slot st1 y = Some data)
                 \<longrightarrow> slot st' y = Some data" for st'
  proof (intro allI impI)
    fix y assume y: "objs st y = ResultEventListener \<and> (y \<in> set (drop pos xs) \<or> slot st y = Some data)"
    then have "y = ?x \<or> y \<in> set (drop (Suc pos) xs) \<or> slot st y = Some data"
      using dr by auto
    then have "y \<in> set (drop (Suc pos) xs) \<or> slot st1 y = Some data"
      using sl1 y by blast
    then show "slot st' y = Some data" using that y st1(3) by simp
  qed
  show ?case
  proof (cases "sync_result (objs st ?x) data")
    case ReturnsNone
    from ih[of tasks]
    obtain st' where st': "for_listeners event data (length xs) (Suc pos) st1 tasks =
            (st', Returned (tasks @ concat (map (\<lambda>x. awaitable_of (x, sync_result (objs st1 x) data)) (drop (Suc pos) xs))))"
          "map_of (l st') event = Some xs" "objs st' = objs st1"
          "task_order st' = task_order st1"
          "calls st' = calls st1 @ map (\<lambda>x. (x, data)) (drop (Suc pos) xs)"
          "awaits st' = awaits st1"
      and sl': "\<forall>y. objs st1 y = ResultEventListener \<and> (y \<in> set (drop (Suc pos) xs) \<or> slot st1 y = Some data)
                 \<longrightarrow> slot st' y = Some data" by blast
    have "for_listeners event data (length xs) pos st tasks = for_listeners event data (length xs) (Suc pos) st1 tasks"
      using Suc.prems(1) lt st1(1) ReturnsNone nu by (subst for_listeners.simps) simp
    then show ?thesis using st' st1 dr ReturnsNone slots[OF sl'] by simp
  next
    case (ReturnsAwaitable a)
    from ih[of "tasks @ [(?x, a)]"]
    obtain st' where st': "for_listeners event data (length xs) (Suc pos) st1 (tasks @ [(?x, a)]) =
            (st', Returned ((tasks @ [(?x, a)]) @ concat (map (\<lambda>x. awaitable_of (x, sync_result (objs st1 x) data)) (drop (Suc pos) xs))))"
          "map_of (l st') event = Some xs" "objs st' = objs st1"
          "task_order st' = task_order st1"
          "calls st' = calls st1 @ map (\<lambda>x. (x, data)) (drop (Suc pos) xs)"
          "awaits st' = awaits st1"
      and sl': "\<forall>y. objs st1 y = ResultEventListener \<and> (y \<in> set (drop (Suc pos) xs) \<or> slot st1 y = Some data)
                 \<longrightarrow> slot st' y = Some data" by blast
    have "for_listeners event data (length xs) pos st tasks = for_listeners event data (length xs) (Suc pos) st1 (tasks @ [(?x, a)])"
      using Suc.prems(1) lt st1(1) ReturnsAwaitable nu by (subst for_listeners.simps) simp
    then show ?thesis using st' st1 dr ReturnsAwaitable slots[OF sl'] by simp
  next
    case (RaisesSync e)
    with nr show ?thesis by simp
  qed
qed

text \<open>
  A callback that raises synchronously ends the loop: the listeners before it have been
  called, the ones after it are not.
\<close>

lemma for_listeners_raises:
  assumes "map_of (l st) event = Some xs" "pos \<le> j" "j < length xs"
    "\<forall>i. pos \<le> i \<and> i < j \<longrightarrow> quiet (objs st (xs ! i)) event data"
    "sync_result (objs st (xs ! j)) data = RaisesSync e"
  shows "\<exists>st'. for_listeners event data (length xs) pos st tasks = (st', Raised e)
          \<and> calls st' = calls st @ map (\<lambda>x. (x, data)) (take (Suc j - pos) (drop pos xs))
          \<and> awaits st' = awaits st"
  using assms
proof (induction "j - pos" arbitrary: pos st tasks)
  case 0
  then have pj: "pos = j" by simp
  obtain st1 r where c: "call_callback st (xs ! j) data = (st1, r)"
    by (cases "call_callback st (xs ! j) data")
  have r: "r = RaisesSync e" "calls st1 = calls st @ [(xs ! j, data)]" "awaits st1 = awaits st"
    using call_callback_result[of st "xs ! j" data] c "0.prems"(5) by simp_all
  have "for_listeners event data (length xs) pos st tasks = (st1, Raised e)"
    using "0.prems"(1,3) pj c r(1) by (subst for_listeners.simps) simp
  moreover have "take (Suc j - pos) (drop pos xs) = [xs ! j]"
    using pj "0.prems"(3) by (simp add: take_Suc_conv_app_nth)
  ultimately show ?case using r by simp
next
  case (Suc n)
  then have lt: "pos < j" "pos < length xs" by simp_all
  let ?x = "xs ! pos"
  have q: "quiet (objs st ?x) event data" using Suc.prems lt by simp
  from call_callback_quiet[OF q] obtain st1 where
    st1: "call_callback st ?x data = (st1, sync_result (objs st ?x) data)"
      "map_of (l st1) event = map_of (l st) event" "objs st1 = objs st"
      "calls st1 = calls st @ [(?x, data)]" "awaits st1 = awaits st" by blast
  have nr: "\<not> raises (sync_result (objs st ?x) data)" using q by (simp add: quiet_def)
  have nu: "\<not> unnoticed_change st st1 event ?x data" by (rule quiet_noticed[OF q])
  have dr: "take (Suc j - pos) (drop pos xs) = ?x # take (Suc j - Suc pos) (drop (Suc pos) xs)"
    using lt by (simp add: Cons_nth_drop_Suc[symmetric] Suc_diff_le)
  have n: "n = j - Suc pos" using Suc.hyps(2) by simp
  have pre: "map_of (l st1) event = Some xs" "Suc pos \<le> j"
    "\<forall>i. Suc pos \<le> i \<and> i < j \<longrightarrow> quiet (objs st1 (xs ! i)) event data"
    "sync_result (objs st1 (xs ! j)) data = RaisesSync e"
    using st1 Suc.prems lt by auto
  have ih: "\<exists>st'. for_listeners event data (length xs) (Suc pos) st1 tk = (st', Raised e)
          \<and> calls st' = calls st1 @ map (\<lambda>x. (x, data)) (take (Suc j - Suc pos) (drop (Suc pos) xs))
          \<and> awaits st' = awaits st1" for tk
    by (rule Suc.hyps(1)[OF n pre(1,2) Suc.prems(3) pre(3,4)])
  show ?case
  proof (cases "sync_result (objs st ?x) data")
    case ReturnsNone
    have "for_listeners event data (length xs) pos st tasks = for_listeners event data (length xs) (Suc pos) st1 tasks"
      using Suc.prems(1) lt st1(1) ReturnsNone nu by (subst for_listeners.simps) simp
    then show ?thesis using ih[of tasks] st1 dr by auto
  next
    case (ReturnsAwaitable a)
    have "for_listeners event data (length xs) pos st tasks = for_listeners event data (length xs) (Suc pos) st1 (tasks @ [(?x, a)])"
      using Suc.prems(1) lt st1(1) ReturnsAwaitable nu by (subst for_listeners.simps) simp
    then show ?thesis using ih[of "tasks @ [(?x, a)]"] st1 dr by auto
  next
    case (RaisesSync e')
    with nr show ?thesis by simp
  qed
qed

lemma awaited_trace:
  "concat (map awaited (map (\<lambda>(x, a). Awaited x a) zs)) = zs"
  "concat (map called (map (\<lambda>(x, a). Awaited x a) zs)) = []"
  by (induction zs) auto

lemma gather_Awaited:
  "\<exists>st'. gather Awaited st1 ts (Gathered ops) = (st', Returned ())
      \<and> calls st' = calls st1
      \<and> awaits st' = awaits st1 @ sort_key (\<lambda>(x, a). task_order st1 x) ts"
proof (cases ts)
  case Nil
  then show ?thesis by simp
next
  case (Cons u us)
  define zs where "zs = sort_key (\<lambda>(x, a). task_order st1 x) (u # us)"
  have "awaits (st1\<lparr>trace := trace st1 @ map (\<lambda>(x, a). Awaited x a) zs\<rparr>) = awaits st1 @ zs"
    unfolding awaits_def using awaited_trace(1)[of zs] by simp
  moreover have "calls (st1\<lparr>trace := trace st1 @ map (\<lambda>(x, a). Awaited x a) zs\<rparr>) = calls st1"
    unfolding calls_def using awaited_trace(2)[of zs] by simp
  ultimately show ?thesis using Cons unfolding zs_def by simp
qed

lemma slot_gather [simp]: "slot (fst (gather mk st ts g)) = slot st"
  by (cases "(mk, st, ts, g)" rule: gather.cases) simp_all

lemma trigger_listener_quiet:
  assumes "map_of (l st) event = Some xs"
    and "\<forall>x\<in>set xs. quiet (objs st x) event data"
  shows "\<exists>st'. trigger_listener st event data (Gathered ops) = (st', Returned ())
           \<and> calls st' = calls st @ map (\<lambda>x. (x, data)) xs
           \<and> awaits st' = awaits st @ sort_key (\<lambda>(x, a). task_order st x)
                 (concat (map (\<lambda>x. awaitable_of (x, sync_result (objs st x) data)) xs))"
proof -
  define ts where "ts = concat (map (\<lambda>x. awaitable_of (x, sync_result (objs st x) data)) xs)"
  have q: "\<forall>i. 0 \<le> i \<and> i < length xs \<longrightarrow> quiet (objs st (xs ! i)) event data"
    using assms(2) by simp
  from for_listeners_quiet[OF assms(1) _ q, of "[]"]
  obtain st1 where st1: "for_listeners event data (length xs) 0 st [] = (st1, Returned ts)"
     "calls st1 = calls st @ map (\<lambda>x. (x, data)) xs" "awaits st1 = awaits st"
     "task_order st1 = task_order st"
    unfolding ts_def by auto
  from gather_Awaited[of st1 ts ops] obtain st' where
    "gather Awaited st1 ts (Gathered ops) = (st', Returned ())"
    "calls st' = calls st1" "awaits st' = awaits st1 @ sort_key (\<lambda>(x, a). task_order st1 x) ts" by blast
  then show ?thesis using st1 assms(1) unfolding ts_def[symmetric]
    by (simp add: trigger_listener_def)
qed

text \<open>A dispatch stores the message in every \<^verbatim>\<open>ResultEventListener\<close> it calls.\<close>

lemma trigger_listener_delivers:
  assumes "map_of (l st) event = Some xs"
    and "\<forall>y\<in>set xs. quiet (objs st y) event data"
    and "x \<in> set xs" and "objs st x = ResultEventListener"
  shows "slot (fst (trigger_listener st event data g)) x = Some data"
proof -
  have q: "\<forall>i. 0 \<le> i \<and> i < length xs \<longrightarrow> quiet (objs st (xs ! i)) event data"
    using assms(2) by simp
  from for_listeners_quiet[OF assms(1) _ q, of "[]"]
  obtain st1 ts where st1: "for_listeners event data (length xs) 0 st [] = (st1, Returned ts)"
    and sl: "\<forall>y. objs st y = ResultEventListener \<and> (y \<in> set (drop 0 xs) \<or> slot st y = Some data)
                 \<longrightarrow> slot st1 y = Some data" by auto
  have "slot st1 x = Some data" using sl assms(3,4) by simp
  moreover have "trigger_listener st event data g = gather Awaited st1 ts g"
    using assms(1) st1 by (simp add: trigger_listener_def)
  ultimately show ?thesis by simp
qed

lemma trigger_listener_raises:
  assumes "map_of (l st) event = Some xs" "j < length xs"
    "\<forall>i<j. quiet (objs st (xs ! i)) event data"
    "sync_result (objs st (xs ! j)) data = RaisesSync e"
  shows "\<exists>st'. trigger_listener st event data g = (st', Raised e)
          \<and> calls st' = calls st @ map (\<lambda>x. (x, data)) (take (Suc j) xs)
          \<and> awaits st' = awaits st"
proof -
  have q: "\<forall>i. 0 \<le> i \<and> i < j \<longrightarrow> quiet (objs st (xs ! i)) event data"
    using assms(3) by simp
  from for_listeners_raises[OF assms(1) _ assms(2) q assms(4), of "[]"]
  obtain st' where "for_listeners event data (length xs) 0 st [] = (st', Raised e)"
    "calls st' = calls st @ map (\<lambda>x. (x, data)) (take (Suc j) xs)" "awaits st' = awaits st"
    by auto
  then show ?thesis using assms(1) by (simp add: trigger_listener_def)
qed

text \<open>
  Claim C1, as stated, fails: \<^verbatim>\<open>trigger_listener\<close> takes no snapshot. With listeners 1 and
  2 registered for \<^verbatim>\<open>"e"\<close>, the callback of listener 1 removes listener 2; the next step of
  the iteration raises \<^verbatim>\<open>RuntimeError\<close>, the dispatch is aborted and listener 2, registered
  when the dispatch began, is never called.
\<close>

theorem trigger_listener_no_snapshot_counterexample:
  "map_of (l remover_state) ''e'' = Some [1, 2]
   \<and> snd (trigger_listener remover_state ''e'' closed_msg (Gathered [])) = Raised RuntimeError
   \<and> calls (fst (trigger_listener remover_state ''e'' closed_msg (Gathered []))) = [(1, closed_msg)]"
  by (simp add: trigger_listener_def remover_state_def new_protocol_def for_listeners.simps
      call_callback_def log_def remove_listener_def set_discard_def calls_def
      unnoticed_change_def)

text \<open>
  A change of the iterated set that keeps its size passes the test of the iterator; what
  the rest of the loop visits is left open.
\<close>

lemma size_preserving_change_is_left_open:
  "map_of (l (fst (call_callback swapper_state 1 closed_msg))) ''e'' = Some [1, 3]
   \<and> snd (trigger_listener swapper_state ''e'' closed_msg (Gathered [])) = Pending
   \<and> calls (fst (trigger_listener swapper_state ''e'' closed_msg (Gathered []))) = [(1, closed_msg)]"
  by (simp add: trigger_listener_def swapper_state_def new_protocol_def for_listeners.simps
      call_callback_def log_def remove_listener_def add_listener_def set_discard_def set_add_def
      calls_def unnoticed_change_def)

text \<open>
  Claim C1, amended. The loop over the listeners runs without suspending, so only a
  callback of the dispatch itself can change the set while it is iterated. When no callback
  of the listeners registered for the event raises synchronously or makes a synchronous
  registry call naming that event, the dispatch calls exactly the listeners registered for
  the event when it begins, each once and with the message, and completes; the registry
  calls \<open>ops\<close> that any coroutine makes while the dispatch awaits the gathered awaitables,
  for this event or another, change nothing of that.
\<close>

theorem trigger_listener_calls_registered:
  assumes "map_of (l st) event = Some xs"
    and "\<forall>x\<in>set xs. quiet (objs st x) event data"
  shows "\<exists>st'. trigger_listener st event data (Gathered ops) = (st', Returned ())
           \<and> calls st' = calls st @ map (\<lambda>x. (x, data)) xs"
  using trigger_listener_quiet[OF assms, of ops] by blast

theorem trigger_listener_calls_registered_witness:
  "snd (trigger_listener fanout_state ''e'' closed_msg (Gathered [Remove ''e'' 1, Add ''e'' 7]))
     = Returned ()
   \<and> calls (fst (trigger_listener fanout_state ''e'' closed_msg
                   (Gathered [Remove ''e'' 1, Add ''e'' 7])))
     = [(1, closed_msg), (2, closed_msg), (3, closed_msg)]"
proof -
  have h1: "map_of (l fanout_state) ''e'' = Some [1, 2, 3]"
    by (simp add: fanout_state_def new_protocol_def)
  have h2: "\<forall>x\<in>set [1, 2, 3]. quiet (objs fanout_state x) ''e'' closed_msg"
    by (simp add: fanout_state_def new_protocol_def quiet_def)
  have c: "calls fanout_state = []"
    by (simp add: fanout_state_def new_protocol_def calls_def)
  from trigger_listener_calls_registered[OF h1 h2, of "[Remove ''e'' 1, Add ''e'' 7]"] c
  show ?thesis by auto
qed

text \<open>
  Claim C7, as stated, fails for a failure raised synchronously: the call
  \<^verbatim>\<open>listener.callback(data)\<close> stands unprotected in the loop, so the exception leaves the
  loop and the dispatch. With listeners 1 and 2 registered for \<^verbatim>\<open>"e"\<close> and the callback of
  listener 1 raising, listener 2 does not receive the message.
\<close>

theorem trigger_listener_sync_raise_counterexample:
  "map_of (l raiser_state) ''e'' = Some [1, 2]
   \<and> snd (trigger_listener raiser_state ''e'' closed_msg (Gathered [])) = Raised OtherError
   \<and> calls (fst (trigger_listener raiser_state ''e'' closed_msg (Gathered []))) = [(1, closed_msg)]
   \<and> slot (fst (trigger_listener raiser_state ''e'' closed_msg (Gathered []))) 2 = None"
  by (simp add: trigger_listener_def raiser_state_def new_protocol_def for_listeners.simps
      call_callback_def log_def calls_def)

text \<open>
  Claim C7, amended to the failures of awaitables. When no callback of the listeners
  registered for the event raises synchronously or makes a synchronous registry call naming
  that event, and the dispatch is not cancelled while it waits, every one of them is called
  with the message, every awaitable returned is awaited to its end, whether it completes or
  fails, in whatever order, and the dispatch itself completes:
  the failure of the awaitable of one listener keeps no other listener from receiving the
  message. A failure raised synchronously by a callback is not tolerated: when the
  callbacks before it in the order of the iteration are as above, the dispatch raises that
  failure, the listeners up to the raising one have been called and the later ones have
  not, and nothing has been awaited.
\<close>

theorem trigger_listener_tolerates_awaitable_failure:
  assumes "map_of (l st) event = Some xs"
  shows "((\<forall>x\<in>set xs. quiet (objs st x) event data) \<longrightarrow>
            (\<exists>st'. trigger_listener st event data (Gathered ops) = (st', Returned ())
               \<and> calls st' = calls st @ map (\<lambda>x. (x, data)) xs
               \<and> mset (awaits st') = mset (awaits st)
                    + mset (concat (map (\<lambda>x. awaitable_of (x, sync_result (objs st x) data)) xs))))
       \<and> (\<forall>j e. j < length xs \<and> (\<forall>i<j. quiet (objs st (xs ! i)) event data)
                  \<and> sync_result (objs st (xs ! j)) data = RaisesSync e \<longrightarrow>
            (\<exists>st'. trigger_listener st event data (Gathered ops) = (st', Raised e)
               \<and> calls st' = calls st @ map (\<lambda>x. (x, data)) (take (Suc j) xs)
               \<and> awaits st' = awaits st))"
proof (intro conjI impI allI)
  assume q: "\<forall>x\<in>set xs. quiet (objs st x) event data"
  from trigger_listener_quiet[OF assms q, of ops] obtain st' where
    st': "trigger_listener st event data (Gathered ops) = (st', Returned ())"
      "calls st' = calls st @ map (\<lambda>x. (x, data)) xs"
      "awaits st' = awaits st @ sort_key (\<lambda>(x, a). task_order st x)
                 (concat (map (\<lambda>x. awaitable_of (x, sync_result (objs st x) data)) xs))" by blast
  have "mset (awaits st') = mset (awaits st)
          + mset (concat (map (\<lambda>x. awaitable_of (x, sync_result (objs st x) data)) xs))"
    unfolding st'(3) by simp
  then show "\<exists>st'. trigger_listener st event data (Gathered ops) = (st', Returned ())
               \<and> calls st' = calls st @ map (\<lambda>x. (x, data)) xs
               \<and> mset (awaits st') = mset (awaits st)
                    + mset (concat (map (\<lambda>x. awaitable_of (x, sync_result (objs st x) data)) xs))"
    using st'(1,2) by blast
next
  fix j e
  assume a: "j < length xs \<and> (\<forall>i<j. quiet (objs st (xs ! i)) event data)
                  \<and> sync_result (objs st (xs ! j)) data = RaisesSync e"
  then show "\<exists>st'. trigger_listener st event data (Gathered ops) = (st', Raised e)
               \<and> calls st' = calls st @ map (\<lambda>x. (x, data)) (take (Suc j) xs)
               \<and> awaits st' = awaits st"
    using trigger_listener_raises[OF assms, of j data e "Gathered ops"] by blast
qed

theorem trigger_listener_tolerates_awaitable_failure_witness:
  "snd (trigger_listener fanout_state ''e'' closed_msg (Gathered [])) = Returned ()
   \<and> calls (fst (trigger_listener fanout_state ''e'' closed_msg (Gathered [])))
     = [(1, closed_msg), (2, closed_msg), (3, closed_msg)]
   \<and> mset (awaits (fst (trigger_listener fanout_state ''e'' closed_msg (Gathered []))))
     = mset [(1, Some OtherError), (2, None)]
   \<and> snd (trigger_listener raiser_state ''e'' closed_msg (Gathered [])) = Raised OtherError
   \<and> calls (fst (trigger_listener raiser_state ''e'' closed_msg (Gathered [])))
     = [(1, closed_msg)]
   \<and> awaits (fst (trigger_listener raiser_state ''e'' closed_msg (Gathered []))) = []"
proof -
  have h1: "map_of (l fanout_state) ''e'' = Some [1, 2, 3]"
    by (simp add: fanout_state_def new_protocol_def)
  have h2: "\<forall>x\<in>set [1, 2, 3]. quiet (objs fanout_state x) ''e'' closed_msg"
    by (simp add: fanout_state_def new_protocol_def quiet_def)
  have c: "calls fanout_state = []" "awaits fanout_state = []"
    by (simp_all add: fanout_state_def new_protocol_def calls_def awaits_def)
  have o: "objs fanout_state 1 = Custom (\<lambda>d. ([], ReturnsAwaitable (Some OtherError))) ReturnsNone"
    "objs fanout_state 2 = Custom (\<lambda>d. ([Add ''f'' 4], ReturnsAwaitable None)) ReturnsNone"
    "objs fanout_state 3 = ResultEventListener"
    by (simp_all add: fanout_state_def new_protocol_def)
  have k1: "map_of (l raiser_state) ''e'' = Some [1, 2]"
    by (simp add: raiser_state_def new_protocol_def)
  have k2: "(0::nat) < length [1::nat, 2] \<and> (\<forall>i<0. quiet (objs raiser_state ([1, 2] ! i)) ''e'' closed_msg)
      \<and> sync_result (objs raiser_state ([1, 2] ! 0)) closed_msg = RaisesSync OtherError"
    by (simp add: raiser_state_def new_protocol_def)
  have d: "calls raiser_state = []" "awaits raiser_state = []"
    by (simp_all add: raiser_state_def new_protocol_def calls_def awaits_def)
  from trigger_listener_tolerates_awaitable_failure[OF h1, of closed_msg "[]"] h2 c o
  have a: "snd (trigger_listener fanout_state ''e'' closed_msg (Gathered [])) = Returned ()
   \<and> calls (fst (trigger_listener fanout_state ''e'' closed_msg (Gathered [])))
     = [(1, closed_msg), (2, closed_msg), (3, closed_msg)]
   \<and> mset (awaits (fst (trigger_listener fanout_state ''e'' closed_msg (Gathered []))))
     = mset [(1, Some OtherError), (2, None)]" by auto
  from trigger_listener_tolerates_awaitable_failure[OF k1, of closed_msg "[]"] k2 d
  have b: "snd (trigger_listener raiser_state ''e'' closed_msg (Gathered [])) = Raised OtherError
   \<and> calls (fst (trigger_listener raiser_state ''e'' closed_msg (Gathered [])))
     = [(1, closed_msg)]
   \<and> awaits (fst (trigger_listener raiser_state ''e'' closed_msg (Gathered []))) = []"
    by fastforce
  from a b show ?thesis by blast
qed

text \<open>
  The awaitables end in the order of the environment: with the order of the two awaitables
  of the last example reversed, the failing one ends last.
\<close>

lemma awaitables_end_in_task_order:
  "awaits (fst (trigger_listener (fanout_state\<lparr>task_order := (\<lambda>x. 9 - x)\<rparr>) ''e'' closed_msg
                  (Gathered [])))
     = [(2, None), (1, Some OtherError)]"
  by (simp add: trigger_listener_def fanout_state_def new_protocol_def for_listeners.simps
      call_callback_def log_def add_listener_def set_add_def awaits_def unnoticed_change_def)

subsection \<open>Requests\<close>

lemma for_listeners_invariant:
  assumes cb: "\<And>st x d. P st \<Longrightarrow> P (fst (call_callback st x d))"
    and "P st"
  shows "P (fst (for_listeners event data used pos st tasks))"
  using assms(2)
proof (induction event data used pos st tasks rule: for_listeners.induct)
  case (1 event data used pos st tasks)
  show ?case
  proof (cases "map_of (l st) event")
    case None
    then show ?thesis using "1.prems" by (subst for_listeners.simps) simp
  next
    case (Some xs)
    show ?thesis
    proof (cases "length xs \<noteq> used \<or> used \<le> pos")
      case True
      then show ?thesis using Some "1.prems" by (subst for_listeners.simps) auto
    next
      case False
      obtain st1 r where c: "call_callback st (xs ! pos) data = (st1, r)"
        by (cases "call_callback st (xs ! pos) data")
      have "P (fst (call_callback st (xs ! pos) data))" by (rule cb[OF "1.prems"])
      then have p1: "P st1" unfolding c by simp
      show ?thesis
      proof (cases "unnoticed_change st st1 event (xs ! pos) data")
        case True
        then show ?thesis using Some False c p1
          by (subst for_listeners.simps) (simp split: cb_result.splits)
      next
        case nu: False
        show ?thesis
        proof (cases r)
          case ReturnsNone
          have "P (fst (for_listeners event data used (Suc pos) st1 tasks))"
            using "1.IH"(1)[OF Some _ _ c[symmetric] ReturnsNone nu p1] False by simp
          then show ?thesis using Some False c ReturnsNone nu
            by (subst for_listeners.simps) simp
        next
          case (ReturnsAwaitable a)
          have "P (fst (for_listeners event data used (Suc pos) st1 (tasks @ [(xs ! pos, a)])))"
            using "1.IH"(2)[OF Some _ _ c[symmetric] ReturnsAwaitable nu p1] False by simp
          then show ?thesis using Some False c ReturnsAwaitable nu
            by (subst for_listeners.simps) simp
        next
          case (RaisesSync e)
          then show ?thesis using Some False c p1
            by (subst for_listeners.simps) simp
        qed
      qed
    qed
  qed
qed

lemma trigger_listener_invariant:
  assumes cb: "\<And>st x d. P st \<Longrightarrow> P (fst (call_callback st x d))"
    and ga: "\<And>st ts. P st \<Longrightarrow> P (fst (gather Awaited st ts g))"
    and "P st"
  shows "P (fst (trigger_listener st event data g))"
proof (cases "map_of (l st) event")
  case None
  then show ?thesis using ga[OF assms(3), of "[]"] by (simp add: trigger_listener_def)
next
  case (Some xs)
  obtain st1 r where f: "for_listeners event data (length xs) 0 st [] = (st1, r)"
    by (cases "for_listeners event data (length xs) 0 st []")
  have "P (fst (for_listeners event data (length xs) 0 st []))"
    by (rule for_listeners_invariant[of P, OF cb assms(3)])
  then have p1: "P st1" unfolding f by simp
  show ?thesis
    using Some f p1 ga[OF p1] by (cases r) (simp_all add: trigger_listener_def)
qed

lemma heap_call_callback [simp]: "heap (fst (call_callback st x data)) = heap st"
  by (cases "objs st x") (simp_all add: call_callback_def)

lemma heap_gather [simp]: "heap (fst (gather mk st ts g)) = heap st"
  by (cases "(mk, st, ts, g)" rule: gather.cases) simp_all

lemma heap_trigger_listener [simp]: "heap (fst (trigger_listener st event data g)) = heap st"
  by (rule trigger_listener_invariant[where P = "\<lambda>st'. heap st' = heap st"]) simp_all

lemma heap_run_other [simp]: "heap (run_other st other) = heap st"
  by (cases other) simp_all

lemma heap_run_others [simp]: "heap (run_others st os) = heap st"
  unfolding run_others_def by (induction os arbitrary: st) simp_all

lemma heap_write_loop [simp]: "heap (fst (write_loop st data pointer steps)) = heap st"
  by (induction st data pointer steps rule: write_loop.induct)
     (simp_all add: Let_def split: sleep.splits)

lemma heap_write_data [simp]: "heap (fst (write_data st data steps)) = heap st"
  by (simp add: write_data_def split: option.splits)

lemma heap_request:
  "heap (fst (request dumps st event data_arg ws1 ws2 others)) =
     (heap st)((case data_arg of None \<Rightarrow> request_default | Some a \<Rightarrow> a) :=
        AList.update ''event'' (JStr event)
          (heap st (case data_arg of None \<Rightarrow> request_default | Some a \<Rightarrow> a)))"
proof -
  let ?a = "case data_arg of None \<Rightarrow> request_default | Some a \<Rightarrow> a"
  let ?st1 = "st\<lparr>heap := (heap st)(?a := AList.update ''event'' (JStr event) (heap st ?a))\<rparr>"
  show ?thesis
  proof (cases "dumps (heap ?st1 ?a)")
    case (Inl e)
    then show ?thesis by (simp add: request_def Let_def)
  next
    case (Inr tx)
    obtain st2 r where w: "write_data (run_others ?st1 others) tx ws1 = (st2, r)"
      by (cases "write_data (run_others ?st1 others) tx ws1")
    have h2: "heap st2 = heap ?st1"
      using heap_write_data[of "run_others ?st1 others" tx ws1] w by simp
    have h3: "heap (fst (write_data st2 crlf ws2)) = heap ?st1"
      using h2 by simp
    show ?thesis using Inr w h2 h3 by (cases r) (simp_all add: request_def Let_def)
  qed
qed

lemma heap_wait [simp]: "heap (fst (wait st x timeout others we)) = heap st"
  by (simp add: wait_def Let_def split: option.splits wait_end.splits timeout_arg.splits)

lemma heap_request_with_result:
  "heap (fst (request_with_result dumps st event data_arg timeout env)) =
     (heap st)((case data_arg of None \<Rightarrow> request_with_result_default | Some a \<Rightarrow> a) :=
        AList.update ''event'' (JStr event)
          (heap st (case data_arg of None \<Rightarrow> request_with_result_default | Some a \<Rightarrow> a)))"
proof -
  let ?a = "case data_arg of None \<Rightarrow> request_with_result_default | Some a \<Rightarrow> a"
  let ?x = "new_listener env"
  let ?st1 = "add_listener (st\<lparr>objs := (objs st)(?x := ResultEventListener),
                    slot := (slot st)(?x := None)\<rparr>) (event @ ''_return'') ?x"
  obtain st2 r where rq: "request dumps ?st1 event (Some ?a) (w1 env) (w2 env) (others1 env) = (st2, r)"
    by (cases "request dumps ?st1 event (Some ?a) (w1 env) (w2 env) (others1 env)")
  have h2: "heap st2 = (heap st)(?a := AList.update ''event'' (JStr event) (heap st ?a))"
    using heap_request[of dumps ?st1 event "Some ?a" "w1 env" "w2 env" "others1 env"] rq by simp
  obtain st3 r3 where wt: "wait st2 ?x timeout (others2 env) (wend env) = (st3, r3)"
    by (cases "wait st2 ?x timeout (others2 env) (wend env)")
  have h3: "heap st3 = heap st2"
    using heap_wait[of st2 ?x timeout "others2 env" "wend env"] wt by simp
  show ?thesis
    using rq h2 wt h3
    by (cases r; cases r3) (simp_all add: request_with_result_def registered_request_def Let_def)
qed

text \<open>
  Claim C9. \<^verbatim>\<open>request\<close> assigns \<^verbatim>\<open>data["event"] = event\<close> in the dictionary it was given,
  before anything can fail: whatever the outcome of the call, the dictionary at the
  caller's address has its \<^verbatim>\<open>"event"\<close> item overwritten with the event argument and no other
  dictionary has changed. A call without payload writes into the one dictionary at
  \<open>request_default\<close>, so what one such call leaves there is what the next one finds.
  \<^verbatim>\<open>request_with_result\<close> hands its payload on, its own default dictionary included.
\<close>

theorem request_mutates_payload_in_place:
  "heap (fst (request dumps st event data_arg ws1 ws2 others)) =
     (heap st)((case data_arg of None \<Rightarrow> request_default | Some a \<Rightarrow> a) :=
        AList.update ''event'' (JStr event)
          (heap st (case data_arg of None \<Rightarrow> request_default | Some a \<Rightarrow> a)))
   \<and> map_of (heap (fst (request dumps st event data_arg ws1 ws2 others))
          (case data_arg of None \<Rightarrow> request_default | Some a \<Rightarrow> a)) ''event'' = Some (JStr event)
   \<and> heap (fst (request dumps (fst (request dumps st event None ws1 ws2 others))
                  event' None ws1' ws2' others')) request_default =
       AList.update ''event'' (JStr event')
         (AList.update ''event'' (JStr event) (heap st request_default))
   \<and> heap (fst (request_with_result dumps st event data_arg timeout env)) =
     (heap st)((case data_arg of None \<Rightarrow> request_with_result_default | Some a \<Rightarrow> a) :=
        AList.update ''event'' (JStr event)
          (heap st (case data_arg of None \<Rightarrow> request_with_result_default | Some a \<Rightarrow> a)))"
  by (simp add: heap_request heap_request_with_result update_conv')

lemma request_example:
  "heap (fst (request (\<lambda>d. Inl TypeError) (new_protocol\<lparr>heap := (\<lambda>a. [])(5 := [(''event'', JStr ''mine''), (''k'', JInt 1)])\<rparr>)
      ''dialog'' (Some 5) [] [] [])) 5 = [(''event'', JStr ''dialog''), (''k'', JInt 1)]"
  by (simp add: request_def new_protocol_def)

lemma trace_add_listener: "trace (add_listener st ev x) = trace st @ [AddCalled ev x]"
  by (simp add: add_listener_def Let_def split: option.splits)

lemma trace_remove_listener: "trace (remove_listener st ev x) = trace st @ [RemoveCalled ev x]"
  by (simp add: remove_listener_def split: option.splits)

lemma registered_log [simp]: "registered x ev (log a st) = registered x ev st"
  by (simp add: registered_def)

lemma registered_add:
  "registered x ev (add_listener st ev' y) =
     (if ev = ev' \<and> x = y then True else registered x ev st)"
  by (auto simp: registered_def lookup_add_listener set_add_def split: option.splits)

lemma registered_remove:
  "registered x ev (remove_listener st ev' y) =
     (if ev = ev' \<and> x = y then False else registered x ev st)"
  by (auto simp: registered_def lookup_remove_listener set_discard_def split: option.splits)

lemma inv2_log:
  "inv2 x rv c t0 ob st \<Longrightarrow> a \<noteq> RemoveCalled rv x \<Longrightarrow> inv2 x rv c t0 ob (log a st)"
  by (auto simp: inv2_def removals_def)

lemma inv2_add:
  assumes "inv2 x rv c t0 ob st" "y \<noteq> x"
  shows "inv2 x rv c t0 ob (add_listener st ev y)"
  using assms
  by (auto simp: inv2_def registered_add trace_add_listener removals_def)

lemma inv2_remove:
  assumes "inv2 x rv c t0 ob st" "y \<noteq> x"
  shows "inv2 x rv c t0 ob (remove_listener st ev y)"
  using assms
  by (auto simp: inv2_def registered_remove trace_remove_listener removals_def)

lemma inv2_apply_op:
  "inv2 x rv c t0 ob st \<Longrightarrow> op_listener op \<noteq> x \<Longrightarrow> inv2 x rv c t0 ob (apply_op st op)"
  by (cases op) (simp_all add: inv2_add inv2_remove)

lemma inv2_apply_ops:
  "inv2 x rv c t0 ob st \<Longrightarrow> \<not> mentions x ops \<Longrightarrow> inv2 x rv c t0 ob (apply_ops st ops)"
  by (induction ops arbitrary: st) (simp_all add: mentions_def inv2_apply_op)

lemma inv2_field_updates:
  "inv2 x rv c t0 ob (st\<lparr>slot := sl\<rparr>) = inv2 x rv c t0 ob st"
  "inv2 x rv c t0 ob (st\<lparr>queue := q\<rparr>) = inv2 x rv c t0 ob st"
  "inv2 x rv c t0 ob (st\<lparr>heap := h\<rparr>) = inv2 x rv c t0 ob st"
  by (simp_all add: inv2_def registered_def)

lemma inv2_call_callback:
  assumes "inv2 x rv c t0 ob st" "\<forall>y d. \<not> mentions x (sync_ops (ob y) d)"
  shows "inv2 x rv c t0 ob (fst (call_callback st y d))"
proof -
  have o: "objs st = ob" using assms(1) by (simp add: inv2_def)
  show ?thesis
  proof (cases "ob y")
    case ResultEventListener
    then show ?thesis using assms(1) o
      by (simp add: call_callback_def inv2_log inv2_field_updates)
  next
    case ResultQueueListener
    then show ?thesis using assms(1) o
      by (simp add: call_callback_def inv2_log inv2_field_updates)
  next
    case (Custom cb cn)
    have "\<not> mentions x (fst (cb d))" using assms(2) Custom
      by (metis sync_ops.simps(1))
    then show ?thesis using assms(1) o Custom
      by (simp add: call_callback_def inv2_log inv2_apply_ops)
  qed
qed

lemma inv2_trace_append:
  assumes "inv2 x rv c t0 ob st" "RemoveCalled rv x \<notin> set extra"
  shows "inv2 x rv c t0 ob (st\<lparr>trace := trace st @ extra\<rparr>)"
proof -
  have "filter (\<lambda>a. a = RemoveCalled rv x) extra = []"
    using assms(2) by (induction extra) auto
  then show ?thesis using assms(1)
    by (auto simp: inv2_def registered_def removals_def)
qed

lemma inv2_gather:
  assumes "inv2 x rv c t0 ob st" "\<not> mentions x (gather_ops g)"
  shows "inv2 x rv c t0 ob (fst (gather Awaited st ts g))"
proof (cases "(Awaited, st, ts, g)" rule: gather.cases)
  case (1 mk st' g')
  then show ?thesis using assms by simp
next
  case (2 mk st' t ts' ops)
  have "RemoveCalled rv x \<notin> set (map (\<lambda>(x, a). Awaited x a) zs)" for zs
    by (auto split: prod.splits)
  from inv2_trace_append[OF assms(1) this] 2 assms(2)
  show ?thesis by (simp add: inv2_apply_ops)
next
  case (3 mk st' t ts' ops)
  then show ?thesis using assms by (simp add: inv2_apply_ops)
qed

lemma inv2_trigger_listener:
  assumes "inv2 x rv c t0 ob st" "\<forall>y d. \<not> mentions x (sync_ops (ob y) d)"
    "\<not> mentions x (gather_ops g)"
  shows "inv2 x rv c t0 ob (fst (trigger_listener st event data g))"
  by (rule trigger_listener_invariant[where P = "inv2 x rv c t0 ob"])
     (simp_all add: inv2_call_callback inv2_gather assms)

lemma inv2_run_others:
  assumes "inv2 x rv c t0 ob st" "\<forall>y d. \<not> mentions x (sync_ops (ob y) d)"
    "\<not> mentions x (concat (map other_ops os))"
  shows "inv2 x rv c t0 ob (run_others st os)"
  using assms(1,3) unfolding run_others_def
proof (induction os arbitrary: st)
  case Nil
  then show ?case by simp
next
  case (Cons ot os)
  have m: "\<not> mentions x (other_ops ot)" "\<not> mentions x (concat (map other_ops os))"
    using Cons.prems(2) by (simp_all add: mentions_def)
  have "inv2 x rv c t0 ob (run_other st ot)"
  proof (cases ot)
    case (Reg op)
    then show ?thesis using Cons.prems(1) m(1) by (simp add: inv2_apply_op mentions_def)
  next
    case (Deliver ev d g)
    then show ?thesis using Cons.prems(1) m(1) assms(2) by (simp add: inv2_trigger_listener)
  qed
  from Cons.IH[OF this m(2)] show ?case by simp
qed

lemma inv2_write_loop:
  "inv2 x rv c t0 ob st \<Longrightarrow> inv2 x rv c t0 ob (fst (write_loop st data pointer steps))"
  by (induction st data pointer steps rule: write_loop.induct)
     (simp_all add: Let_def inv2_log split: sleep.splits)

lemma inv2_write_data:
  "inv2 x rv c t0 ob st \<Longrightarrow> inv2 x rv c t0 ob (fst (write_data st data steps))"
  by (simp add: write_data_def inv2_write_loop split: option.splits)

lemma inv2_request:
  assumes "inv2 x rv c t0 ob st" "\<forall>y d. \<not> mentions x (sync_ops (ob y) d)"
    "\<not> mentions x (concat (map other_ops os))"
  shows "inv2 x rv c t0 ob (fst (request dumps st event data_arg ws1 ws2 os))"
proof -
  let ?a = "case data_arg of None \<Rightarrow> request_default | Some a \<Rightarrow> a"
  let ?st1 = "st\<lparr>heap := (heap st)(?a := AList.update ''event'' (JStr event) (heap st ?a))\<rparr>"
  have i1: "inv2 x rv c t0 ob ?st1" using assms(1) by (simp add: inv2_field_updates)
  show ?thesis
  proof (cases "dumps (heap ?st1 ?a)")
    case (Inl e)
    then show ?thesis using i1 by (simp add: request_def Let_def)
  next
    case (Inr tx)
    have i2: "inv2 x rv c t0 ob (run_others ?st1 os)"
      by (rule inv2_run_others[OF i1 assms(2,3)])
    obtain st2 r where w: "write_data (run_others ?st1 os) tx ws1 = (st2, r)"
      by (cases "write_data (run_others ?st1 os) tx ws1")
    have i3: "inv2 x rv c t0 ob st2"
      using inv2_write_data[OF i2, of tx ws1] w by simp
    have i4: "inv2 x rv c t0 ob (fst (write_data st2 crlf ws2))"
      by (rule inv2_write_data[OF i3])
    show ?thesis using Inr w i3 i4 by (cases r) (simp_all add: request_def Let_def)
  qed
qed

lemma inv2_wait:
  assumes "inv2 x rv c t0 ob st" "\<forall>y d. \<not> mentions x (sync_ops (ob y) d)"
    "\<not> mentions x (concat (map other_ops os))"
  shows "inv2 x rv c t0 ob (fst (wait st y timeout os we))"
  using inv2_run_others[OF assms]
  by (simp add: wait_def Let_def inv2_field_updates
      split: option.splits wait_end.splits timeout_arg.splits)

lemma request_with_result_cases:
  assumes "request_with_result dumps st event data_arg timeout env = (st', r)" "r \<noteq> Pending"
  shows "\<exists>st1 st3. st1 = add_listener (st\<lparr>objs := (objs st)(new_listener env := ResultEventListener),
                    slot := (slot st)(new_listener env := None)\<rparr>) (event @ ''_return'') (new_listener env)
     \<and> (st3 = fst (request dumps st1 event
                (Some (case data_arg of None \<Rightarrow> request_with_result_default | Some a \<Rightarrow> a))
                (w1 env) (w2 env) (others1 env))
         \<or> st3 = fst (wait (fst (request dumps st1 event
                (Some (case data_arg of None \<Rightarrow> request_with_result_default | Some a \<Rightarrow> a))
                (w1 env) (w2 env) (others1 env))) (new_listener env) timeout (others2 env) (wend env)))
     \<and> st' = remove_listener st3 (event @ ''_return'') (new_listener env)"
  using assms
  by (auto simp: request_with_result_def registered_request_def Let_def
      split: prod.splits result.splits)

text \<open>
  A timeout that \<^verbatim>\<open>wait_for\<close> refuses ends the wait with its exception, also when the reply is
  stored already.
\<close>

lemma wait_refused:
  assumes "refusal timeout = Some e" "we \<noteq> WaitCancelled"
  shows "snd (wait st x timeout os we) = Raised e"
  using assms by (cases we) (simp_all add: wait_def Let_def)

lemma wait_refused_example:
  "snd (wait (open_protocol\<lparr>slot := (\<lambda>x. None)(7 := Some version_reply)\<rparr>) 7 (Seconds 0) []
          StillWaiting) = Raised TimeoutError"
  "snd (wait (open_protocol\<lparr>slot := (\<lambda>x. None)(7 := Some version_reply)\<rparr>) 7 (Seconds (1 / 4)) []
          StillWaiting) = Returned version_reply"
  by (simp_all add: wait_def run_others_def Let_def)

text \<open>The call ends when its request has ended and its wait is cancelled or times out.\<close>

lemma wait_ends:
  assumes "we = WaitCancelled \<or> (we = TimedOut \<and> timeout \<noteq> NoTimeout)"
  shows "snd (wait st x timeout os we) \<noteq> Pending"
  using assms
  by (auto simp: wait_def Let_def split: option.splits timeout_arg.splits)

lemma request_with_result_ends:
  assumes "snd (request dumps
             (add_listener (st\<lparr>objs := (objs st)(new_listener env := ResultEventListener),
                               slot := (slot st)(new_listener env := None)\<rparr>)
                (event @ ''_return'') (new_listener env))
             event (Some (case data_arg of None \<Rightarrow> request_with_result_default | Some a \<Rightarrow> a))
             (w1 env) (w2 env) (others1 env)) \<noteq> Pending"
    and "wend env = WaitCancelled \<or> (wend env = TimedOut \<and> timeout \<noteq> NoTimeout)"
  shows "snd (request_with_result dumps st event data_arg timeout env) \<noteq> Pending"
proof -
  let ?rq = "request dumps
             (add_listener (st\<lparr>objs := (objs st)(new_listener env := ResultEventListener),
                               slot := (slot st)(new_listener env := None)\<rparr>)
                (event @ ''_return'') (new_listener env))
             event (Some (case data_arg of None \<Rightarrow> request_with_result_default | Some a \<Rightarrow> a))
             (w1 env) (w2 env) (others1 env)"
  obtain st2 r where rq: "?rq = (st2, r)" by (cases ?rq)
  obtain st3 r3 where wt: "wait st2 (new_listener env) timeout (others2 env) (wend env) = (st3, r3)"
    by (cases "wait st2 (new_listener env) timeout (others2 env) (wend env)")
  have "r3 \<noteq> Pending"
    using wait_ends[OF assms(2), of st2 "new_listener env" "others2 env"] wt by simp
  moreover have "r \<noteq> Pending" using assms(1) rq by simp
  ultimately show ?thesis
    using rq wt
    by (cases r; cases r3) (simp_all add: request_with_result_def registered_request_def Let_def)
qed

lemmas ev_defs = request_with_result_def registered_request_def request_def write_data_def
  wait_def run_others_def
  add_listener_def remove_listener_def log_def set_add_def set_discard_def crlf_def
  open_protocol_def new_protocol_def version_dumps_def version_reply_def
  trigger_listener_def for_listeners.simps call_callback_def Let_def

text \<open>
  Claim C2. \<^verbatim>\<open>request_with_result\<close> creates a listener and registers it under
  \<^verbatim>\<open>event + "_return"\<close> before anything is written: when the request has been sent, or has
  failed, the listener is in the set of that event. So a reply that the read loop
  dispatches for that event while the call waits reaches the listener, and the call
  returns it (the other listeners of the event being quiet, and the timeout being
  \<^verbatim>\<open>None\<close> or positive, so that \<^verbatim>\<open>wait_for\<close> waits at all). On every path on which the call
  ends (the reply is returned, the wait raises \<^verbatim>\<open>TimeoutError\<close> or a cancellation,
  \<^verbatim>\<open>json.dumps\<close> or a write raises) it calls \<^verbatim>\<open>remove_listener\<close> for that listener exactly once;
  afterwards the listener is registered for no event. The listener is a new object: before
  the call it is in no set of the registry, and no other coroutine and no callback holds a
  reference to it, so none of their registry calls names it.
\<close>

theorem request_with_result_deregisters:
  assumes fresh: "\<forall>ev. \<not> registered (new_listener env) ev st"
    and cbs: "\<forall>y d. y \<noteq> new_listener env \<longrightarrow> \<not> mentions (new_listener env) (sync_ops (objs st y) d)"
    and oth: "\<not> mentions (new_listener env) (concat (map other_ops (others1 env @ others2 env)))"
    and run: "request_with_result dumps st event data_arg timeout env = (st', r)"
  shows "registered (new_listener env) (event @ ''_return'')
           (fst (registered_request dumps st event data_arg env))
       \<and> (\<forall>os reply g.
             snd (registered_request dumps st event data_arg env) = Returned ()
             \<and> refusal timeout = None
             \<and> others2 env = os @ [Deliver (event @ ''_return'') reply g]
             \<and> (\<forall>y. y \<noteq> new_listener env \<longrightarrow> quiet (objs st y) (event @ ''_return'') reply)
             \<longrightarrow> r = Returned reply)
       \<and> (r \<noteq> Pending \<longrightarrow>
            (\<forall>ev. \<not> registered (new_listener env) ev st')
            \<and> (\<exists>rest. trace st' = trace st @ AddCalled (event @ ''_return'') (new_listener env) # rest
                   \<and> removals (event @ ''_return'') (new_listener env) rest = 1))"
proof -
  let ?x = "new_listener env"
  let ?rv = "event @ ''_return''"
  let ?ob = "(objs st)(?x := ResultEventListener)"
  let ?st0 = "st\<lparr>objs := ?ob, slot := (slot st)(?x := None)\<rparr>"
  let ?st1 = "add_listener ?st0 ?rv ?x"
  let ?t0 = "trace st @ [AddCalled ?rv ?x]"
  let ?a = "case data_arg of None \<Rightarrow> request_with_result_default | Some a \<Rightarrow> a"
  let ?rq = "fst (request dumps ?st1 event (Some ?a) (w1 env) (w2 env) (others1 env))"
  have rr: "registered_request dumps st event data_arg env
              = request dumps ?st1 event (Some ?a) (w1 env) (w2 env) (others1 env)"
    by (simp add: registered_request_def Let_def)
  have ob: "\<forall>y d. \<not> mentions ?x (sync_ops (?ob y) d)"
    using cbs by (auto simp: mentions_def)
  have o1: "\<not> mentions ?x (concat (map other_ops (others1 env)))"
    and o2: "\<not> mentions ?x (concat (map other_ops (others2 env)))"
    using oth by (simp_all add: mentions_def)
  have f0: "\<forall>ev. \<not> registered ?x ev ?st0" using fresh by (simp add: registered_def)
  have i1: "inv2 ?x ?rv 0 ?t0 ?ob ?st1"
    using f0 by (simp add: inv2_def registered_add trace_add_listener removals_def)
  have i2: "inv2 ?x ?rv 0 ?t0 ?ob ?rq"
    by (rule inv2_request[OF i1 ob o1])
  have i3: "inv2 ?x ?rv 0 ?t0 ?ob (fst (wait ?rq ?x timeout (others2 env) (wend env)))"
    by (rule inv2_wait[OF i2 ob o2])
  have part1: "registered ?x ?rv (fst (registered_request dumps st event data_arg env))"
    using i2 unfolding rr by (simp add: inv2_def)
  have part2: "r = Returned reply"
    if sent: "snd (registered_request dumps st event data_arg env) = Returned ()"
      and pos: "refusal timeout = None"
      and del: "others2 env = os @ [Deliver ?rv reply g]"
      and qu: "\<forall>y. y \<noteq> ?x \<longrightarrow> quiet (objs st y) ?rv reply"
    for os reply g
  proof -
    let ?s2 = "run_others ?rq os"
    have m: "\<not> mentions ?x (concat (map other_ops os))"
      using o2 del by (simp add: mentions_def)
    have i: "inv2 ?x ?rv 0 ?t0 ?ob ?s2"
      by (rule inv2_run_others[OF i2 ob m])
    then obtain xs where xs: "map_of (l ?s2) ?rv = Some xs" "?x \<in> set xs"
      by (auto simp: inv2_def registered_def split: option.splits)
    have o: "objs ?s2 = ?ob" using i by (simp add: inv2_def)
    have q: "\<forall>y\<in>set xs. quiet (objs ?s2 y) ?rv reply"
      using qu o by (simp add: quiet_def)
    have ox: "objs ?s2 ?x = ResultEventListener" using o by simp
    have ro: "run_others ?rq (others2 env) = fst (trigger_listener ?s2 ?rv reply g)"
      unfolding del by (simp add: run_others_def)
    have sl: "slot (run_others ?rq (others2 env)) ?x = Some reply"
      unfolding ro by (rule trigger_listener_delivers[OF xs(1) q xs(2) ox])
    have w: "snd (wait ?rq ?x timeout (others2 env) (wend env)) = Returned reply"
      using sl pos by (simp add: wait_def Let_def)
    obtain st2 where st2: "registered_request dumps st event data_arg env = (st2, Returned ())"
      using sent by (cases "registered_request dumps st event data_arg env") simp
    have "st2 = ?rq" using st2 rr by simp
    then obtain st3 where "wait st2 ?x timeout (others2 env) (wend env) = (st3, Returned reply)"
      using w by (cases "wait st2 ?x timeout (others2 env) (wend env)") simp
    then show ?thesis using run st2 by (simp add: request_with_result_def Let_def)
  qed
  have part3: "(\<forall>ev. \<not> registered ?x ev st')
            \<and> (\<exists>rest. trace st' = trace st @ AddCalled ?rv ?x # rest \<and> removals ?rv ?x rest = 1)"
    if ret: "r \<noteq> Pending"
  proof -
    from request_with_result_cases[OF run ret] obtain st3 where
      st3: "st3 = ?rq \<or> st3 = fst (wait ?rq ?x timeout (others2 env) (wend env))"
      and st': "st' = remove_listener st3 ?rv ?x" by blast
    have i: "inv2 ?x ?rv 0 ?t0 ?ob st3" using st3 i2 i3 by auto
    then obtain rest where rest: "trace st3 = ?t0 @ rest" "removals ?rv ?x rest = 0"
      by (auto simp: inv2_def)
    have "\<forall>ev. \<not> registered ?x ev st'"
      using i st' by (auto simp: inv2_def registered_remove)
    moreover have "trace st' = trace st @ AddCalled ?rv ?x # (rest @ [RemoveCalled ?rv ?x])"
      using rest st' by (simp add: trace_remove_listener)
    moreover have "removals ?rv ?x (rest @ [RemoveCalled ?rv ?x]) = 1"
      using rest(2) by (simp add: removals_def)
    ultimately show ?thesis by blast
  qed
  show ?thesis using part1 part2 part3 by blast
qed

theorem request_with_result_deregisters_witness:
  \<open>snd (request_with_result version_dumps open_protocol ''protocol_version'' (Some 9)
          (Seconds 0.25) env_timeout) = Raised TimeoutError
   \<and> registered 7 ''protocol_version_return''
        (fst (registered_request version_dumps open_protocol ''protocol_version'' (Some 9)
                env_timeout))
   \<and> (\<forall>ev. \<not> registered 7 ev
         (fst (request_with_result version_dumps open_protocol ''protocol_version'' (Some 9)
                (Seconds 0.25) env_timeout)))
   \<and> (\<exists>rest. trace (fst (request_with_result version_dumps open_protocol ''protocol_version''
                 (Some 9) (Seconds 0.25) env_timeout))
            = AddCalled ''protocol_version_return'' 7 # rest
          \<and> removals ''protocol_version_return'' 7 rest = 1)
   \<and> snd (registered_request version_dumps open_protocol ''protocol_version'' (Some 9)
            env_reply) = Returned ()
   \<and> snd (request_with_result version_dumps open_protocol ''protocol_version'' (Some 9)
            (Seconds 0.25) env_reply) = Returned version_reply
   \<and> (\<forall>ev. \<not> registered 7 ev
         (fst (request_with_result version_dumps open_protocol ''protocol_version'' (Some 9)
                (Seconds 0.25) env_reply)))\<close>
proof -
  let ?run = \<open>request_with_result version_dumps open_protocol ''protocol_version'' (Some 9)
          (Seconds 0.25) env_timeout\<close>
  let ?run2 = \<open>request_with_result version_dumps open_protocol ''protocol_version'' (Some 9)
          (Seconds 0.25) env_reply\<close>
  have r: "snd ?run = Raised TimeoutError"
    by (simp add: ev_defs env_timeout_def)
  have n: "new_listener env_timeout = 7" "new_listener env_reply = 7"
    by (simp_all add: env_timeout_def env_reply_def)
  have h1: "\<forall>ev. \<not> registered (new_listener env_timeout) ev open_protocol"
    by (simp add: registered_def open_protocol_def new_protocol_def)
  have h2: "\<forall>y d. y \<noteq> new_listener env_timeout \<longrightarrow>
      \<not> mentions (new_listener env_timeout) (sync_ops (objs open_protocol y) d)"
    by (simp add: open_protocol_def new_protocol_def mentions_def)
  have h3: "\<not> mentions (new_listener env_timeout)
      (concat (map other_ops (others1 env_timeout @ others2 env_timeout)))"
    by (simp add: env_timeout_def mentions_def)
  have h4: "?run = (fst ?run, snd ?run)" by simp
  have k1: "\<forall>ev. \<not> registered (new_listener env_reply) ev open_protocol"
    by (simp add: registered_def open_protocol_def new_protocol_def)
  have k2: "\<forall>y d. y \<noteq> new_listener env_reply \<longrightarrow>
      \<not> mentions (new_listener env_reply) (sync_ops (objs open_protocol y) d)"
    by (simp add: open_protocol_def new_protocol_def mentions_def)
  have k3: "\<not> mentions (new_listener env_reply)
      (concat (map other_ops (others1 env_reply @ others2 env_reply)))"
    by (simp add: env_reply_def mentions_def)
  have k4: "?run2 = (fst ?run2, snd ?run2)" by simp
  have k5: "snd (registered_request version_dumps open_protocol ''protocol_version'' (Some 9)
            env_reply) = Returned ()"
    by (simp add: ev_defs env_reply_def)
  have k6: "refusal (Seconds 0.25) = None" by simp
  have k7: "others2 env_reply
      = [] @ [Deliver (''protocol_version'' @ ''_return'') version_reply (Gathered [])]"
    by (simp add: env_reply_def)
  have k8: "\<forall>y. y \<noteq> new_listener env_reply \<longrightarrow>
      quiet (objs open_protocol y) (''protocol_version'' @ ''_return'') version_reply"
    by (simp add: open_protocol_def new_protocol_def quiet_def)
  have t0: "trace open_protocol = []" by (simp add: open_protocol_def new_protocol_def)
  from request_with_result_deregisters[OF h1 h2 h3 h4] r n t0
  have a: "registered 7 ''protocol_version_return''
        (fst (registered_request version_dumps open_protocol ''protocol_version'' (Some 9)
                env_timeout))
   \<and> (\<forall>ev. \<not> registered 7 ev (fst ?run))
   \<and> (\<exists>rest. trace (fst ?run) = AddCalled ''protocol_version_return'' 7 # rest
          \<and> removals ''protocol_version_return'' 7 rest = 1)"
    by simp
  from request_with_result_deregisters[OF k1 k2 k3 k4] k5 k6 k7 k8
  have b: "snd ?run2 = Returned version_reply" by blast
  from request_with_result_deregisters[OF k1 k2 k3 k4] b n
  have c: "\<forall>ev. \<not> registered 7 ev (fst ?run2)" by simp
  from r a k5 b c show ?thesis by blast
qed

text \<open>The three ways out of the call named by the claim, on the handshake request.\<close>

lemma request_with_result_paths:
  \<open>snd (request_with_result version_dumps open_protocol ''protocol_version'' (Some 9)
     (Seconds 0.25) env_timeout) = Raised TimeoutError\<close>
  \<open>snd (request_with_result version_dumps open_protocol ''protocol_version'' (Some 9)
     (Seconds 0.25) env_write_raises) = Raised SerialException\<close>
  \<open>snd (request_with_result version_dumps open_protocol ''protocol_version'' (Some 9)
     (Seconds 0.25) env_reply) = Returned version_reply\<close>
  \<open>l (fst (request_with_result version_dumps open_protocol ''protocol_version'' (Some 9)
     (Seconds 0.25) env_reply)) = [(''protocol_version_return'', [])]\<close>
  by (simp_all add: ev_defs env_timeout_def env_write_raises_def env_reply_def)

subsection \<open>The read loop\<close>

lemma s_call_callback [simp]: "s (fst (call_callback st x data)) = s st"
  by (cases "objs st x") (simp_all add: call_callback_def)

lemma s_gather [simp]: "s (fst (gather mk st ts g)) = s st"
  by (cases "(mk, st, ts, g)" rule: gather.cases) simp_all

lemma s_trigger_listener [simp]: "s (fst (trigger_listener st event data g)) = s st"
  by (rule trigger_listener_invariant[where P = "\<lambda>st'. s st' = s st"]) simp_all

lemma listen_loop_skips:
  assumes "s st \<noteq> None"
    and "read_until newline NoTimeout b1 polls1 = Returned (Some line1)"
    and "loads line1 = Inl e" and "\<not> breaks e"
  shows "listen_loop loads st (Turn ops b1 polls1 g1 Resumed # ts) = listen_loop loads (apply_ops st ops) ts"
  using assms by (auto simp: listen_body_def)

lemma listen_loop_dispatches:
  assumes "s st \<noteq> None"
    and "read_until newline NoTimeout b2 polls2 = Returned (Some line2)"
    and "loads line2 = Inr resp" and "get_item resp ''event'' = Inr (JStr event)"
    and "map_of (l st) event = Some xs"
    and "\<forall>x\<in>set xs. quiet (objs st x) event resp"
  shows "\<exists>st'. listen_loop loads st (Turn [] b2 polls2 (Gathered ops2) Resumed # ts) = listen_loop loads st' ts
           \<and> calls st' = calls st @ map (\<lambda>x. (x, resp)) xs \<and> s st' = s st"
proof -
  from trigger_listener_quiet[OF assms(5,6), of ops2] obtain st' where
    st': "trigger_listener st event resp (Gathered ops2) = (st', Returned ())"
      "calls st' = calls st @ map (\<lambda>x. (x, resp)) xs" by blast
  have "s st' = s st" using s_trigger_listener[of st event resp "Gathered ops2"] st'(1) by simp
  moreover have "listen_loop loads st (Turn [] b2 polls2 (Gathered ops2) Resumed # ts) = listen_loop loads st' ts"
    using assms(1-4) st'(1) by (auto simp: listen_body_def)
  ultimately show ?thesis using st'(2) by blast
qed

lemma read_until_bad_line: "read_until newline NoTimeout 0 (bytewise (''not json'' @ [CHR 0x0A])) = Returned (Some (''not json'' @ [CHR 0x0A]))"
  by (simp add: read_until_def bytewise_def newline_def endswith_def)

lemma read_until_good_line: \<open>read_until newline NoTimeout 0 (bytewise (''{"event":"x"}'' @ [CHR 0x0A])) = Returned (Some (''{"event":"x"}'' @ [CHR 0x0A]))\<close>
  by (simp add: read_until_def bytewise_def newline_def endswith_def)

text \<open>
  Claim C6. A line that \<^verbatim>\<open>json.load\<close> rejects (with \<^verbatim>\<open>JSONDecodeError\<close>, or with any exception
  that no breaking \<^verbatim>\<open>except\<close> clause catches) leaves the state of the protocol as it was: no
  callback is called. The loop does not end: it goes on with the turns that follow, and
  when no turn follows it is still running. A well-formed frame received next is decoded
  and its message is handed to every listener registered for its event.
\<close>

theorem malformed_line_is_skipped:
  assumes "s st \<noteq> None"
    and "read_until newline NoTimeout b1 polls1 = Returned (Some line1)"
    and "loads line1 = Inl e" and "\<not> breaks e"
    and "read_until newline NoTimeout b2 polls2 = Returned (Some line2)"
    and "loads line2 = Inr resp" and "get_item resp ''event'' = Inr (JStr event)"
    and "map_of (l st) event = Some xs"
    and "\<forall>x\<in>set xs. quiet (objs st x) event resp"
  shows "listen_loop loads st (Turn [] b1 polls1 g1 Resumed # ts) = listen_loop loads st ts
       \<and> listen_loop loads st [Turn [] b1 polls1 g1 Resumed] = (st, Running)
       \<and> (\<exists>st'. listen_loop loads st
                    (Turn [] b1 polls1 g1 Resumed # Turn [] b2 polls2 (Gathered ops2) Resumed # ts)
                  = listen_loop loads st' ts
               \<and> calls st' = calls st @ map (\<lambda>x. (x, resp)) xs \<and> s st' = s st)"
proof -
  have a: "listen_loop loads st (Turn [] b1 polls1 g1 Resumed # ts') = listen_loop loads st ts'" for ts'
    using listen_loop_skips[where loads = loads and ?line1.0 = line1 and ops = "[]", OF assms(1-4), of g1 ts']
    by simp
  have b: "listen_loop loads st [] = (st, Running)" using assms(1) by auto
  from listen_loop_dispatches[where loads = loads and ?line2.0 = line2, OF assms(1) assms(5-9), of ops2 ts] obtain st' where
    "listen_loop loads st (Turn [] b2 polls2 (Gathered ops2) Resumed # ts) = listen_loop loads st' ts"
    "calls st' = calls st @ map (\<lambda>x. (x, resp)) xs" "s st' = s st" by blast
  then show ?thesis using a b by metis
qed

theorem malformed_line_is_skipped_witness:
  \<open>listen_loop demo_loads listening_protocol
      [Turn [] 0 (bytewise (''not json'' @ [CHR 0x0A])) (Gathered []) Resumed]
     = (listening_protocol, Running)
   \<and> (\<exists>st'. listen_loop demo_loads listening_protocol
               [Turn [] 0 (bytewise (''not json'' @ [CHR 0x0A])) (Gathered []) Resumed,
                Turn [] 0 (bytewise (''{"event":"x"}'' @ [CHR 0x0A])) (Gathered []) Resumed]
             = (st', Running)
          \<and> calls st' = [(1, JObj [(''event'', JStr ''x'')])])\<close>
proof -
  have h1: "s listening_protocol \<noteq> None"
    by (simp add: listening_protocol_def open_protocol_def new_protocol_def)
  have h3: "demo_loads (''not json'' @ [CHR 0x0A]) = Inl JSONDecodeError"
    by (simp add: demo_loads_def)
  have h4: "\<not> breaks JSONDecodeError" by simp
  have h6: \<open>demo_loads (''{"event":"x"}'' @ [CHR 0x0A]) = Inr (JObj [(''event'', JStr ''x'')])\<close>
    by (simp add: demo_loads_def)
  have h7: "get_item (JObj [(''event'', JStr ''x'')]) ''event'' = Inr (JStr ''x'')" by simp
  have h8: "map_of (l listening_protocol) ''x'' = Some [1]"
    by (simp add: listening_protocol_def open_protocol_def new_protocol_def)
  have h9: "\<forall>x\<in>set [1]. quiet (objs listening_protocol x) ''x'' (JObj [(''event'', JStr ''x'')])"
    by (simp add: listening_protocol_def open_protocol_def new_protocol_def quiet_def)
  have c0: "calls listening_protocol = []"
    by (simp add: listening_protocol_def open_protocol_def new_protocol_def calls_def)
  from malformed_line_is_skipped[where loads = demo_loads and ?line1.0 = "''not json'' @ [CHR 0x0A]"
      and ?line2.0 = \<open>''{"event":"x"}'' @ [CHR 0x0A]\<close>,
      OF h1 read_until_bad_line h3 h4 read_until_good_line h6 h7 h8 h9, of "Gathered []" "[]" "[]"]
  obtain st' where
    a: "listen_loop demo_loads listening_protocol
          [Turn [] 0 (bytewise (''not json'' @ [CHR 0x0A])) (Gathered []) Resumed]
        = (listening_protocol, Running)"
    and b: \<open>listen_loop demo_loads listening_protocol
               [Turn [] 0 (bytewise (''not json'' @ [CHR 0x0A])) (Gathered []) Resumed,
                Turn [] 0 (bytewise (''{"event":"x"}'' @ [CHR 0x0A])) (Gathered []) Resumed]
             = listen_loop demo_loads st' []\<close>
    and c: "calls st' = calls listening_protocol @ map (\<lambda>x. (x, JObj [(''event'', JStr ''x'')])) [1]"
    and d: "s st' = s listening_protocol" by blast
  have "listen_loop demo_loads st' [] = (st', Running)" using d h1 by auto
  then show ?thesis using a b c c0 by auto
qed

subsection \<open>The round trip of a message\<close>

lemma written_log [simp]: "written (log a st) = written st @ wrote a"
  by (simp add: written_def)

lemma written_update [simp]:
  "written (st\<lparr>l := x\<rparr>) = written st" "written (st\<lparr>slot := y\<rparr>) = written st"
  "written (st\<lparr>queue := z\<rparr>) = written st" "written (st\<lparr>heap := h\<rparr>) = written st"
  by (simp_all add: written_def)

lemma written_apply_op [simp]: "written (apply_op st op) = written st"
  by (cases op) (simp_all add: written_def trace_add_listener trace_remove_listener)

lemma written_apply_ops [simp]: "written (apply_ops st ops) = written st"
  by (induction ops arbitrary: st) simp_all

lemma written_call_callback [simp]: "written (fst (call_callback st x d)) = written st"
  by (cases "objs st x") (simp_all add: call_callback_def)

lemma written_gather [simp]: "written (fst (gather Awaited st ts g)) = written st"
proof (cases "(Awaited, st, ts, g)" rule: gather.cases)
  case (2 mk st' t ts' ops)
  have "concat (map wrote (map (\<lambda>(x, a). Awaited x a) zs)) = []" for zs :: "(lid \<times> exn option) list"
    by (induction zs) auto
  then have "written (st\<lparr>trace := trace st @ map (\<lambda>(x, a). Awaited x a) zs\<rparr>) = written st" for zs
    by (simp add: written_def)
  then show ?thesis using 2 by simp
qed simp_all

lemma written_trigger_listener [simp]:
  "written (fst (trigger_listener st event data g)) = written st"
  by (rule trigger_listener_invariant[where P = "\<lambda>st'. written st' = written st"]) simp_all

lemma written_run_others [simp]: "written (run_others st os) = written st"
  unfolding run_others_def
proof (induction os arbitrary: st)
  case Nil
  then show ?case by simp
next
  case (Cons ot os)
  have "written (run_other st ot) = written st" by (cases ot) simp_all
  then show ?case using Cons.IH[of "run_other st ot"] by simp
qed

lemma s_run_others [simp]: "s (run_others st os) = s st"
  unfolding run_others_def
proof (induction os arbitrary: st)
  case Nil
  then show ?case by simp
next
  case (Cons ot os)
  have "s (run_other st ot) = s st" by (cases ot) simp_all
  then show ?case using Cons.IH[of "run_other st ot"] by simp
qed










subsection \<open>Teardown\<close>

lemma call_callback_silent:
  assumes "silent (objs st x) data"
  shows "\<exists>st1. call_callback st x data = (st1, sync_result (objs st x) data)
           \<and> l st1 = l st \<and> s st1 = s st \<and> objs st1 = objs st \<and> lt st1 = lt st \<and> v st1 = v st
           \<and> trace st1 = trace st @ [Called x data]"
  using assms
  by (cases "objs st x") (auto simp: call_callback_def silent_def)

lemma for_listeners_silent:
  assumes "map_of (l st) event = Some xs" "pos \<le> length xs"
    "\<forall>i. pos \<le> i \<and> i < length xs \<longrightarrow> silent (objs st (xs ! i)) data"
  shows "\<exists>st' ts. for_listeners event data (length xs) pos st tasks = (st', Returned ts)
          \<and> l st' = l st \<and> s st' = s st \<and> objs st' = objs st \<and> lt st' = lt st \<and> v st' = v st
          \<and> trace st' = trace st @ map (\<lambda>x. Called x data) (drop pos xs)"
  using assms
proof (induction "length xs - pos" arbitrary: pos st tasks)
  case 0
  then have "pos = length xs" by simp
  then show ?case
    using "0.prems" by (subst for_listeners.simps) simp
next
  case (Suc n)
  then have lt: "pos < length xs" by simp
  let ?x = "xs ! pos"
  have q: "silent (objs st ?x) data" using Suc.prems lt by simp
  from call_callback_silent[OF q] obtain st1 where
    st1: "call_callback st ?x data = (st1, sync_result (objs st ?x) data)"
      "l st1 = l st" "s st1 = s st" "objs st1 = objs st" "lt st1 = lt st" "v st1 = v st"
      "trace st1 = trace st @ [Called ?x data]" by blast
  have nr: "\<not> raises (sync_result (objs st ?x) data)" using q by (simp add: silent_def)
  have nu: "\<not> unnoticed_change st st1 event ?x data"
    using q by (simp add: silent_def unnoticed_change_def)
  have dr: "drop pos xs = ?x # drop (Suc pos) xs"
    using lt by (simp add: Cons_nth_drop_Suc)
  have n: "n = length xs - Suc pos" using Suc.hyps(2) by simp
  have pre: "map_of (l st1) event = Some xs" "Suc pos \<le> length xs"
    "\<forall>i. Suc pos \<le> i \<and> i < length xs \<longrightarrow> silent (objs st1 (xs ! i)) data"
    using st1 Suc.prems lt by auto
  have ih: "\<exists>st' ts. for_listeners event data (length xs) (Suc pos) st1 tk = (st', Returned ts)
          \<and> l st' = l st1 \<and> s st' = s st1 \<and> objs st' = objs st1 \<and> lt st' = lt st1 \<and> v st' = v st1
          \<and> trace st' = trace st1 @ map (\<lambda>x. Called x data) (drop (Suc pos) xs)" for tk
    by (rule Suc.hyps(1)[OF n pre])
  show ?case
  proof (cases "sync_result (objs st ?x) data")
    case ReturnsNone
    have "for_listeners event data (length xs) pos st tasks = for_listeners event data (length xs) (Suc pos) st1 tasks"
      using Suc.prems(1) lt st1(1) ReturnsNone nu by (subst for_listeners.simps) simp
    moreover from ih[of tasks] obtain st' ts where
      "for_listeners event data (length xs) (Suc pos) st1 tasks = (st', Returned ts)"
      "l st' = l st1" "s st' = s st1" "objs st' = objs st1" "lt st' = lt st1" "v st' = v st1"
      "trace st' = trace st1 @ map (\<lambda>x. Called x data) (drop (Suc pos) xs)" by blast
    ultimately show ?thesis using st1 dr by simp
  next
    case (ReturnsAwaitable a)
    have "for_listeners event data (length xs) pos st tasks = for_listeners event data (length xs) (Suc pos) st1 (tasks @ [(?x, a)])"
      using Suc.prems(1) lt st1(1) ReturnsAwaitable nu by (subst for_listeners.simps) simp
    moreover from ih[of "tasks @ [(?x, a)]"] obtain st' ts where
      "for_listeners event data (length xs) (Suc pos) st1 (tasks @ [(?x, a)]) = (st', Returned ts)"
      "l st' = l st1" "s st' = s st1" "objs st' = objs st1" "lt st' = lt st1" "v st' = v st1"
      "trace st' = trace st1 @ map (\<lambda>x. Called x data) (drop (Suc pos) xs)" by blast
    ultimately show ?thesis using st1 dr by simp
  next
    case (RaisesSync e)
    with nr show ?thesis by simp
  qed
qed

lemma gather_nothing_else:
  "\<exists>st' ts'. gather mk st ts (Gathered []) = (st', Returned ())
      \<and> l st' = l st \<and> s st' = s st \<and> objs st' = objs st \<and> lt st' = lt st \<and> v st' = v st
      \<and> trace st' = trace st @ map (\<lambda>(x, a). mk x a) ts'"
proof (cases ts)
  case Nil
  have "trace st = trace st @ map (\<lambda>(x, a). mk x a) []" by simp
  then show ?thesis using Nil by (intro exI[of _ st] exI[of _ "[]"]) simp
next
  case (Cons u us)
  show ?thesis unfolding Cons
    by (rule exI[of _ "fst (gather mk st (u # us) (Gathered []))"],
        rule exI[of _ "sort_key (\<lambda>(x, a). task_order st x) (u # us)"]) simp
qed

lemma calls_of_trace:
  "trace st' = trace st @ map (\<lambda>x. Called x data) xs @ map (\<lambda>(x, a). Awaited x a) ts \<Longrightarrow>
     calls st' = calls st @ map (\<lambda>x. (x, data)) xs \<and> cancel_calls st' = cancel_calls st
     \<and> closes st' = closes st"
proof -
  have a: "concat (map (called \<circ> (\<lambda>x. Called x data)) ys) = map (\<lambda>x. (x, data)) ys" for ys
    by (induction ys) auto
  have b: "concat (map (called \<circ> (\<lambda>(x, a). Awaited x a)) zs) = []" for zs :: "(lid \<times> exn option) list"
    by (induction zs) auto
  have c: "concat (map (cancelled \<circ> (\<lambda>x. Called x data)) ys) = []" for ys
    by (induction ys) auto
  have d: "concat (map (cancelled \<circ> (\<lambda>(x, a). Awaited x a)) zs) = []" for zs :: "(lid \<times> exn option) list"
    by (induction zs) auto
  have e: "filter (\<lambda>a. a = TransportClosed) (map (\<lambda>x. Called x data) ys) = []" for ys
    by (induction ys) auto
  have f: "filter (\<lambda>a. a = TransportClosed) (map (\<lambda>(x, a). Awaited x a) zs) = []"
    for zs :: "(lid \<times> exn option) list"
    by (induction zs) auto
  assume t: "trace st' = trace st @ map (\<lambda>x. Called x data) xs @ map (\<lambda>(x, a). Awaited x a) ts"
  have "closes st' = closes st" unfolding closes_def t using e[of xs] f[of ts] by simp
  moreover have "calls st' = calls st @ map (\<lambda>x. (x, data)) xs \<and> cancel_calls st' = cancel_calls st"
    using t a[of xs] b[of ts] c[of xs] d[of ts]
    by (simp add: calls_def cancel_calls_def del: concat_eq_Nil_conv)
  ultimately show ?thesis by simp
qed

lemma trigger_listener_silent:
  assumes "\<forall>x\<in>set (listeners_of st event). silent (objs st x) data"
  shows "\<exists>st'. trigger_listener st event data (Gathered []) = (st', Returned ())
      \<and> l st' = l st \<and> s st' = s st \<and> objs st' = objs st \<and> lt st' = lt st \<and> v st' = v st
      \<and> calls st' = calls st @ map (\<lambda>x. (x, data)) (listeners_of st event)
      \<and> cancel_calls st' = cancel_calls st \<and> closes st' = closes st"
proof (cases "map_of (l st) event")
  case None
  then show ?thesis by (simp add: trigger_listener_def listeners_of_def)
next
  case (Some xs)
  have q: "\<forall>i. 0 \<le> i \<and> i < length xs \<longrightarrow> silent (objs st (xs ! i)) data"
    using assms Some by (simp add: listeners_of_def)
  from for_listeners_silent[OF Some _ q, of "[]"] obtain st1 ts where
    st1: "for_listeners event data (length xs) 0 st [] = (st1, Returned ts)"
      "l st1 = l st" "s st1 = s st" "objs st1 = objs st" "lt st1 = lt st" "v st1 = v st"
      "trace st1 = trace st @ map (\<lambda>x. Called x data) xs" by auto
  from gather_nothing_else[of Awaited st1 ts] obtain st' ts' where
    st': "gather Awaited st1 ts (Gathered []) = (st', Returned ())"
      "l st' = l st1" "s st' = s st1" "objs st' = objs st1" "lt st' = lt st1" "v st' = v st1"
      "trace st' = trace st1 @ map (\<lambda>(x, a). Awaited x a) ts'" by blast
  have t: "trace st' = trace st @ map (\<lambda>x. Called x data) xs @ map (\<lambda>(x, a). Awaited x a) ts'"
    using st1(7) st'(7) by simp
  have "trigger_listener st event data (Gathered []) = (st', Returned ())"
    using Some st1(1) st'(1) by (simp add: trigger_listener_def)
  then show ?thesis
    using calls_of_trace[OF t] st1 st' Some by (simp add: listeners_of_def)
qed

lemma cancel_listeners_ok:
  assumes "\<forall>x. \<not> raises (cancel_of (objs st x))"
  shows "\<exists>st' ts. cancel_listeners st xs tasks = (st', Returned ts)
      \<and> l st' = l st \<and> s st' = s st \<and> objs st' = objs st \<and> lt st' = lt st \<and> v st' = v st
      \<and> trace st' = trace st @ map CancelCalled xs"
  using assms
proof (induction xs arbitrary: st tasks)
  case Nil
  then show ?case by simp
next
  case (Cons x xs)
  let ?st1 = "log (CancelCalled x) st"
  have o: "\<forall>y. \<not> raises (cancel_of (objs ?st1 y))" using Cons.prems by simp
  have ih: "\<exists>st' ts. cancel_listeners ?st1 xs tk = (st', Returned ts)
      \<and> l st' = l ?st1 \<and> s st' = s ?st1 \<and> objs st' = objs ?st1 \<and> lt st' = lt ?st1 \<and> v st' = v ?st1
      \<and> trace st' = trace ?st1 @ map CancelCalled xs" for tk
    by (rule Cons.IH[OF o])
  have nr: "\<not> raises (cancel_of (objs st x))" using Cons.prems by simp
  show ?case
  proof (cases "cancel_of (objs st x)")
    case ReturnsNone
    then show ?thesis using ih[of tasks] by auto
  next
    case (ReturnsAwaitable a)
    then show ?thesis using ih[of "tasks @ [(x, a)]"] by auto
  next
    case (RaisesSync e)
    then show ?thesis using nr by simp
  qed
qed

lemma cancel_events_ok:
  assumes "\<forall>x. \<not> raises (cancel_of (objs st x))"
  shows "\<exists>st' ts. cancel_events st reg tasks = (st', Returned ts)
      \<and> l st' = l st \<and> s st' = s st \<and> objs st' = objs st \<and> lt st' = lt st \<and> v st' = v st
      \<and> trace st' = trace st @ map CancelCalled (concat (map snd reg))"
  using assms
proof (induction reg arbitrary: st tasks)
  case Nil
  then show ?case by simp
next
  case (Cons p reg)
  obtain ev xs where p: "p = (ev, xs)" by (cases p)
  from cancel_listeners_ok[OF Cons.prems, of xs tasks] obtain st1 ts1 where
    st1: "cancel_listeners st xs tasks = (st1, Returned ts1)"
      "l st1 = l st" "s st1 = s st" "objs st1 = objs st" "lt st1 = lt st" "v st1 = v st"
      "trace st1 = trace st @ map CancelCalled xs" by blast
  have o: "\<forall>y. \<not> raises (cancel_of (objs st1 y))" using Cons.prems st1(4) by simp
  from Cons.IH[OF o, of ts1] obtain st' ts where
    st': "cancel_events st1 reg ts1 = (st', Returned ts)"
      "l st' = l st1" "s st' = s st1" "objs st' = objs st1" "lt st' = lt st1" "v st' = v st1"
      "trace st' = trace st1 @ map CancelCalled (concat (map snd reg))" by blast
  show ?case using p st1 st' by simp
qed

lemma cancel_calls_of_trace:
  "trace st' = trace st @ map CancelCalled xs @ map (\<lambda>(x, a). CancelAwaited x a) ts \<Longrightarrow>
     cancel_calls st' = cancel_calls st @ xs \<and> calls st' = calls st \<and> closes st' = closes st"
proof -
  have a: "concat (map (cancelled \<circ> CancelCalled) ys) = ys" for ys
    by (induction ys) auto
  have b: "concat (map (cancelled \<circ> (\<lambda>(x, a). CancelAwaited x a)) zs) = []" for zs :: "(lid \<times> exn option) list"
    by (induction zs) auto
  have c: "concat (map (called \<circ> CancelCalled) ys) = []" for ys
    by (induction ys) auto
  have d: "concat (map (called \<circ> (\<lambda>(x, a). CancelAwaited x a)) zs) = []" for zs :: "(lid \<times> exn option) list"
    by (induction zs) auto
  have e: "filter (\<lambda>a. a = TransportClosed) (map CancelCalled ys) = []" for ys
    by (induction ys) auto
  have f: "filter (\<lambda>a. a = TransportClosed) (map (\<lambda>(x, a). CancelAwaited x a) zs) = []"
    for zs :: "(lid \<times> exn option) list"
    by (induction zs) auto
  assume t: "trace st' = trace st @ map CancelCalled xs @ map (\<lambda>(x, a). CancelAwaited x a) ts"
  have "closes st' = closes st" unfolding closes_def t using e[of xs] f[of ts] by simp
  moreover have "cancel_calls st' = cancel_calls st @ xs \<and> calls st' = calls st"
    using t a[of xs] b[of ts] c[of xs] d[of ts]
    by (simp add: calls_def cancel_calls_def del: concat_eq_Nil_conv)
  ultimately show ?thesis by simp
qed

lemma cancel_all_listener_ok:
  assumes "\<forall>x. \<not> raises (cancel_of (objs st x))"
  shows "\<exists>st'. cancel_all_listener st (Gathered []) = (st', Returned ())
      \<and> l st' = l st \<and> s st' = s st \<and> objs st' = objs st \<and> lt st' = lt st \<and> v st' = v st
      \<and> cancel_calls st' = cancel_calls st @ concat (map snd (l st))
      \<and> calls st' = calls st \<and> closes st' = closes st"
proof -
  from cancel_events_ok[OF assms, of "l st" "[]"] obtain st1 ts where
    st1: "cancel_events st (l st) [] = (st1, Returned ts)"
      "l st1 = l st" "s st1 = s st" "objs st1 = objs st" "lt st1 = lt st" "v st1 = v st"
      "trace st1 = trace st @ map CancelCalled (concat (map snd (l st)))" by blast
  from gather_nothing_else[of CancelAwaited st1 ts] obtain st' ts' where
    st': "gather CancelAwaited st1 ts (Gathered []) = (st', Returned ())"
      "l st' = l st1" "s st' = s st1" "objs st' = objs st1" "lt st' = lt st1" "v st' = v st1"
      "trace st' = trace st1 @ map (\<lambda>(x, a). CancelAwaited x a) ts'" by blast
  have t: "trace st' = trace st @ map CancelCalled (concat (map snd (l st))) @ map (\<lambda>(x, a). CancelAwaited x a) ts'"
    using st1(7) st'(7) by simp
  have "cancel_all_listener st (Gathered []) = (st', Returned ())"
    using st1(1) st'(1) by (simp add: cancel_all_listener_def)
  then show ?thesis using cancel_calls_of_trace[OF t] st1 st' by simp
qed

lemma clean_up_ok:
  assumes "\<forall>x\<in>set (listeners_of st ''closed''). silent (objs st x) closed_msg"
    and "\<forall>x. \<not> raises (cancel_of (objs st x))"
  shows "\<exists>st'. clean_up st (Gathered []) (Gathered []) = (st', Returned ())
      \<and> calls st' = calls st @ map (\<lambda>x. (x, closed_msg)) (listeners_of st ''closed'')
      \<and> cancel_calls st' = cancel_calls st @ concat (map snd (l st))
      \<and> l st' = l st
      \<and> s st' = (case s st of None \<Rightarrow> None | Some tr \<Rightarrow> if closed tr then Some tr else None)
      \<and> closes st' = closes st
           + (case s st of None \<Rightarrow> 0 | Some tr \<Rightarrow> if closed tr then 0 else 1)
      \<and> lt st' = None \<and> v st' = JInt 0"
proof -
  from trigger_listener_silent[OF assms(1)] obtain st1 where
    st1: "trigger_listener st ''closed'' closed_msg (Gathered []) = (st1, Returned ())"
      "l st1 = l st" "s st1 = s st" "objs st1 = objs st"
      "calls st1 = calls st @ map (\<lambda>x. (x, closed_msg)) (listeners_of st ''closed'')"
      "cancel_calls st1 = cancel_calls st" "closes st1 = closes st" by blast
  have o: "\<forall>x. \<not> raises (cancel_of (objs st1 x))" using assms(2) st1(4) by simp
  from cancel_all_listener_ok[OF o] obtain st2 where
    st2: "cancel_all_listener st1 (Gathered []) = (st2, Returned ())"
      "l st2 = l st1" "s st2 = s st1"
      "cancel_calls st2 = cancel_calls st1 @ concat (map snd (l st1))"
      "calls st2 = calls st1" "closes st2 = closes st1" by blast
  have c: "calls (x\<lparr>lt := a, v := b\<rparr>) = calls x" "cancel_calls (x\<lparr>lt := a, v := b\<rparr>) = cancel_calls x"
    "calls (x\<lparr>s := c\<rparr>) = calls x" "cancel_calls (x\<lparr>s := c\<rparr>) = cancel_calls x"
    "cancel_calls (log TransportClosed x) = cancel_calls x"
    "closes (x\<lparr>lt := a, v := b\<rparr>) = closes x" "closes (x\<lparr>s := c\<rparr>) = closes x"
    "closes (log TransportClosed x) = Suc (closes x)"
    for x a b c
    by (simp_all add: calls_def cancel_calls_def closes_def)
  show ?thesis
  proof (cases "s st2")
    case None
    then show ?thesis using st1 st2
      by (simp add: clean_up_def Let_def closed_msg_def[symmetric] c)
  next
    case (Some tr)
    then show ?thesis using st1 st2
      by (simp add: clean_up_def Let_def closed_msg_def[symmetric] c)
  qed
qed

lemmas ev2_defs = listen_def flush_input_def listen_body_def read_until_def clean_up_def
  cancel_all_listener_def trigger_listener_def for_listeners.simps call_callback_def
  log_def Let_def open_protocol_def new_protocol_def calls_def cancel_calls_def closes_def




subsection \<open>The handshake\<close>

lemmas ev3_defs = init_def init_port_def handshake_def close_def version_def
  silent_device_def blank_line_device_def answering_device_def usb_port_def
  env_timeout_def env_reply_def

lemma listen_cancelled_in_flush_input:
  assumes "flush_input st n0 fsteps = Raised CancelledError"
  shows "listen loads st n0 fsteps turns g1 g2 = cancel_listen st InFlushInput g1 g2"
  using assms by (simp add: listen_def)

lemma listen_cancelled_in_try:
  assumes "flush_input st n0 fsteps = Returned ()" and "s st \<noteq> None"
    and "listen_body loads st b polls g = (st1, Raised CancelledError)"
  shows "listen loads st n0 fsteps (Turn [] b polls g sl # ts) g1 g2 = cancel_listen st1 InReadUntil g1 g2"
    and "listen loads st n0 fsteps (Turn [] b polls g sl # ts) g1 g2 = cancel_listen st1 InTriggerListener g1 g2"
  using assms by (auto simp: listen_def)

lemma listen_cancelled_at_loop_sleep:
  assumes "flush_input st n0 fsteps = Returned ()" and "s st \<noteq> None"
    and "listen_body loads st b polls g = (st1, r)"
    and "r = Returned () \<or> (\<exists>e. r = Raised e \<and> \<not> breaks e)"
  shows "listen loads st n0 fsteps (Turn [] b polls g CancelledAtSleep # ts) g1 g2
           = cancel_listen st1 InLoopSleep g1 g2"
  using assms by (auto simp: listen_def)

lemma init_answering_device:
  "snd (init version_dumps new_protocol ''/dev/ttyACM0'' 115200 [] answering_device) = Returned True"
  "version (fst (init version_dumps new_protocol ''/dev/ttyACM0'' 115200 [] answering_device)) = JInt 3"
  by (simp_all add: ev3_defs ev_defs)

lemma init_silent_device:
  "snd (init version_dumps new_protocol ''/dev/ttyACM0'' 115200 [] silent_device) = Returned False"
  "s (fst (init version_dumps new_protocol ''/dev/ttyACM0'' 115200 [] silent_device)) = None"
  "lt (fst (init version_dumps new_protocol ''/dev/ttyACM0'' 115200 [] silent_device)) = None"
  "version (fst (init version_dumps new_protocol ''/dev/ttyACM0'' 115200 [] silent_device)) = JInt 0"
  by (simp_all add: ev3_defs ev_defs ev2_defs cancel_listen.simps)

lemma handshake_success:
  assumes "write_data st crlf (w0 env) = (st2, Returned ())"
    and "request_with_result dumps (st2\<lparr>lt := Some ListenTask, heap := (heap st2)(new_dict env := [])\<rparr>)
           ''protocol_version'' (Some (new_dict env)) (Seconds (1 / 4)) (rwr env) = (st4, Returned resp)"
    and "get_item resp ''version'' = Inr ver"
  shows "handshake dumps st env = (st4\<lparr>v := ver\<rparr>, Returned True)"
    and "version (fst (handshake dumps st env)) = ver"
  using assms by (simp_all add: handshake_def Let_def version_def)

lemma handshake_failure_in_try:
  assumes "write_data st crlf (w0 env) = (st2, Returned ())"
    and "request_with_result dumps (st2\<lparr>lt := Some ListenTask, heap := (heap st2)(new_dict env := [])\<rparr>)
           ''protocol_version'' (Some (new_dict env)) (Seconds (1 / 4)) (rwr env) = (st4, Raised e)"
    and "lt st4 \<noteq> None"
    and "read_task env = Suspended InReadUntil \<or> read_task env = Suspended InTriggerListener"
    and "tg env = Gathered []" and "cg env = Gathered []"
    and "\<forall>x\<in>set (listeners_of st4 ''closed''). silent (objs st4 x) closed_msg"
    and "\<forall>x. \<not> raises (cancel_of (objs st4 x))"
  shows "\<exists>st5. handshake dumps st env = (st5, Returned False)
           \<and> s st5 = (case s st4 of None \<Rightarrow> None | Some tr \<Rightarrow> if closed tr then Some tr else None)
           \<and> lt st5 = None \<and> version st5 = JInt 0"
proof -
  from clean_up_ok[OF assms(7,8)] obtain st5 where
    c: "clean_up st4 (Gathered []) (Gathered []) = (st5, Returned ())"
       "s st5 = (case s st4 of None \<Rightarrow> None | Some tr \<Rightarrow> if closed tr then Some tr else None)"
       "lt st5 = None" "v st5 = JInt 0" by blast
  have "close st4 (read_task env) (tg env) (cg env) = (st5, Returned ())"
    using assms(3-6) c(1) by (auto simp: close_def)
  then have "handshake dumps st env = (st5, Returned False)"
    using assms(1,2) by (simp add: handshake_def Let_def)
  then show ?thesis using c by (simp add: version_def)
qed

lemma handshake_failure_at_loop_sleep:
  assumes "write_data st crlf (w0 env) = (st2, Returned ())"
    and "request_with_result dumps (st2\<lparr>lt := Some ListenTask, heap := (heap st2)(new_dict env := [])\<rparr>)
           ''protocol_version'' (Some (new_dict env)) (Seconds (1 / 4)) (rwr env) = (st4, Raised e)"
    and "read_task env = Suspended InLoopSleep \<or> read_task env = Suspended InFlushInput"
  shows "handshake dumps st env = (st4, Returned False)"
  using assms by (auto simp: handshake_def Let_def close_def split: option.splits)

text \<open>
  Claim C4, at an input where the code departs from it. The claim holds when the reply
  arrives (\<open>handshake_success\<close>, \<open>init_answering_device\<close>), and on a timeout it holds when
  \<^verbatim>\<open>close\<close> finds the read task inside the \<^verbatim>\<open>try\<close> statement (\<open>handshake_failure_in_try\<close>,
  \<open>init_silent_device\<close>). Here the device answers with blank lines and no version: each
  newline ends a frame, the decoder rejects the empty line, and the read task waits at the
  sleep that ends the turn of the loop, which stands outside the \<^verbatim>\<open>try\<close> statement. The
  cancellation by \<^verbatim>\<open>close\<close> leaves \<^verbatim>\<open>_listen\<close> there without \<^verbatim>\<open>_clean_up\<close>; \<^verbatim>\<open>close\<close>
  swallows it and \<^verbatim>\<open>init\<close> reports failure, with the transport still open and both
  handles still set.
\<close>

theorem init_timeout_skips_clean_up:
  "snd (init version_dumps new_protocol ''/dev/ttyACM0'' 115200 [] blank_line_device) = Returned False
   \<and> s (fst (init version_dumps new_protocol ''/dev/ttyACM0'' 115200 [] blank_line_device))
       = Some usb_port
   \<and> lt (fst (init version_dumps new_protocol ''/dev/ttyACM0'' 115200 [] blank_line_device))
       = Some ListenTask
   \<and> TransportClosed \<notin> set (trace (fst (init version_dumps new_protocol ''/dev/ttyACM0'' 115200 []
                                          blank_line_device)))
   \<and> listen demo_loads open_protocol (Inr 0) []
        [Turn [] 0 [Read newline 0 Resumed] (Gathered []) CancelledAtSleep] (Gathered []) (Gathered [])
       = (open_protocol, Raised CancelledError)"
  by (simp add: ev3_defs ev_defs listen_def flush_input_def listen_body_def read_until_def
      newline_def endswith_def demo_loads_def)

end
